theory Spec2Isabelle
  imports Main "HOL-Library.Word"
begin

section \<open>Cells, bitsets and colours\<close>

text \<open>
  A cell (\<open>HexPoint\<close>) is an integer identifier below the compile-time bitset size.
  The bitset size is not declared under the sources at hand, so the cell type is a
  parameter \<open>'c\<close>: any finite, linearly ordered type.  A \<open>bitset_t\<close> is the set of its
  set bits: \<open>&\<close> is \<open>\<inter>\<close>, \<open>|\<close> is \<open>\<union>\<close>, \<open>-\<close> is set difference, \<open>flip\<close> is complement,
  \<open>none\<close>/\<open>any\<close> compare with \<open>{}\<close>, \<open>count\<close> is \<open>card\<close>, \<open>_Find_first\<close> is \<open>Min\<close>, and a
  \<open>BitsetIterator\<close> walks \<open>sorted_list_of_set\<close>.
\<close>

type_synonym 'c bitset_t = "'c set"

datatype HexColor = BLACK | WHITE | EMPTY

fun other_color :: "HexColor \<Rightarrow> HexColor" where
  "other_color BLACK = WHITE"
| "other_color WHITE = BLACK"
| "other_color EMPTY = EMPTY"

datatype assertion =
    Assert_added_disjoint
  | Assert_xin_neq_yin
  | Assert_xout_neq_yout
  | Assert_same_aliasing
  | Assert_semi_unchanged
  | Assert_full_unchanged
  | Assert_endpoint_not_opponent
  | Assert_nbr_is_captain
  | Assert_type_full
  | Assert_new_semis_positive
  | Assert_find_first
  | Assert_add_index
  | Assert_enhanced_or_add
  | Assert_maxOrs
  | Assert_upgrade_key
  | Assert_search_end

section \<open>Connections\<close>

datatype VCType = FULL | SEMI

datatype VcCombineRule = VC_RULE_BASE | VC_RULE_AND | VC_RULE_OR | VC_RULE_ALL

record 'c VC =
  VC_X :: 'c
  VC_Y :: 'c
  VC_Key :: "'c option"
  VC_Carrier :: "'c bitset_t"
  VC_Rule :: VcCombineRule
  VC_Processed :: bool

text \<open>
  Modelled from the spec: class \<open>VC\<close> (its source file is not among the sources).
  Endpoints are stored normalised, a Full has no key, a new connection is unprocessed.
\<close>

definition VC_full :: "'c::linorder \<Rightarrow> 'c \<Rightarrow> 'c bitset_t \<Rightarrow> VcCombineRule \<Rightarrow> 'c VC" where
  "VC_full x y carrier rule =
     \<lparr>VC_X = min x y, VC_Y = max x y, VC_Key = None, VC_Carrier = carrier,
      VC_Rule = rule, VC_Processed = False\<rparr>"

definition VC_semi :: "'c::linorder \<Rightarrow> 'c \<Rightarrow> 'c \<Rightarrow> 'c bitset_t \<Rightarrow> VcCombineRule \<Rightarrow> 'c VC" where
  "VC_semi x y key carrier rule =
     \<lparr>VC_X = min x y, VC_Y = max x y, VC_Key = Some key, VC_Carrier = carrier,
      VC_Rule = rule, VC_Processed = False\<rparr>"

definition VC_base :: "'c::linorder \<Rightarrow> 'c \<Rightarrow> 'c VC" where
  "VC_base x y = VC_full x y {} VC_RULE_BASE"

definition GetType :: "'c VC \<Rightarrow> VCType" where
  "GetType v = (case VC_Key v of None \<Rightarrow> FULL | Some k \<Rightarrow> SEMI)"

text \<open>Modelled from the spec: \<open>operator==\<close> on connections, endpoints and carrier
  (``locate a VC by endpoints + carrier equality'').\<close>

definition vc_eq :: "'c VC \<Rightarrow> 'c VC \<Rightarrow> bool" where
  "vc_eq a b = (VC_X a = VC_X b \<and> VC_Y a = VC_Y b \<and> VC_Carrier a = VC_Carrier b)"

text \<open>Modelled from the spec: the four overloads of \<open>VC::AndVCs\<close> (AND rule, section 4.4):
  the union of the two carriers, widened by the captured set when one is given, plus the
  key cell for a Semi.\<close>

definition AndVCs_full :: "'c::linorder \<Rightarrow> 'c \<Rightarrow> 'c VC \<Rightarrow> 'c VC \<Rightarrow> 'c VC" where
  "AndVCs_full x y v1 v2 = VC_full x y (VC_Carrier v1 \<union> VC_Carrier v2) VC_RULE_AND"

definition AndVCs_full_cap :: "'c::linorder \<Rightarrow> 'c \<Rightarrow> 'c VC \<Rightarrow> 'c VC \<Rightarrow> 'c bitset_t \<Rightarrow> 'c VC" where
  "AndVCs_full_cap x y v1 v2 capturedSet =
     VC_full x y (VC_Carrier v1 \<union> VC_Carrier v2 \<union> capturedSet) VC_RULE_AND"

definition AndVCs_semi :: "'c::linorder \<Rightarrow> 'c \<Rightarrow> 'c VC \<Rightarrow> 'c VC \<Rightarrow> 'c \<Rightarrow> 'c VC" where
  "AndVCs_semi x y v1 v2 key =
     VC_semi x y key (VC_Carrier v1 \<union> VC_Carrier v2 \<union> {key}) VC_RULE_AND"

definition AndVCs_semi_cap ::
  "'c::linorder \<Rightarrow> 'c \<Rightarrow> 'c VC \<Rightarrow> 'c VC \<Rightarrow> 'c bitset_t \<Rightarrow> 'c \<Rightarrow> 'c VC" where
  "AndVCs_semi_cap x y v1 v2 capturedSet key =
     VC_semi x y key (VC_Carrier v1 \<union> VC_Carrier v2 \<union> capturedSet \<union> {key}) VC_RULE_AND"

text \<open>Modelled from the spec: \<open>VC::ShrinkFull\<close>, \<open>VC::ShrinkSemi\<close> and \<open>VC::UpgradeSemi\<close>
  (section 4.3).  \<open>UpgradeSemi\<close> is valid only for a Semi whose key is in \<open>added\<close>;
  anything else is an assertion failure.\<close>

definition ShrinkFull :: "'c::linorder VC \<Rightarrow> 'c bitset_t \<Rightarrow> 'c \<Rightarrow> 'c \<Rightarrow> 'c VC" where
  "ShrinkFull vc added x y = VC_full x y (VC_Carrier vc - added) (VC_Rule vc)"

definition ShrinkSemi :: "'c::linorder VC \<Rightarrow> 'c bitset_t \<Rightarrow> 'c \<Rightarrow> 'c \<Rightarrow> 'c VC" where
  "ShrinkSemi vc added x y =
     \<lparr>VC_X = min x y, VC_Y = max x y, VC_Key = VC_Key vc,
      VC_Carrier = VC_Carrier vc - added, VC_Rule = VC_Rule vc, VC_Processed = False\<rparr>"

definition UpgradeSemi ::
  "'c::linorder VC \<Rightarrow> 'c bitset_t \<Rightarrow> 'c \<Rightarrow> 'c \<Rightarrow> assertion + 'c VC" where
  "UpgradeSemi vc added x y =
     (case VC_Key vc of
        None \<Rightarrow> Inl Assert_upgrade_key
      | Some k \<Rightarrow>
          if k \<in> added then Inr (VC_full x y (VC_Carrier vc - added) (VC_Rule vc))
          else Inl Assert_upgrade_key)"

section \<open>The change log\<close>

datatype Action = ADD | REMOVE | PROCESSED

type_synonym 'c ChangeLog = "(Action \<times> 'c VC) list option"

text \<open>\<open>m_log\<close> is a pointer that may be null: \<open>None\<close> is the null pointer.\<close>

definition log_push :: "Action \<Rightarrow> 'c VC \<Rightarrow> 'c ChangeLog \<Rightarrow> 'c ChangeLog" where
  "log_push a v lg = (case lg of None \<Rightarrow> None | Some l \<Rightarrow> Some (l @ [(a, v)]))"

definition log_push_all :: "Action \<Rightarrow> 'c VC list \<Rightarrow> 'c ChangeLog \<Rightarrow> 'c ChangeLog" where
  "log_push_all a vs lg = fold (log_push a) vs lg"

section \<open>Lists of connections\<close>

text \<open>
  Modelled from the spec: class \<open>VCList\<close> (sections 3 and 4.2; its source file is not
  among the sources).  A list has its endpoint pair, a soft limit and its entries in
  order of ascending carrier size; the hard and soft intersections are the intersections
  of all carriers and of the carriers in the soft prefix (property P4), the universe for
  an empty list.
\<close>

record 'c VCList =
  L_X :: 'c
  L_Y :: 'c
  L_Softlimit :: nat
  L_entries :: "'c VC list"

datatype AddResult = ADD_FAILED | ADDED_INSIDE_SOFT_LIMIT | ADDED_INSIDE_HARD_LIMIT

definition L_Empty :: "'c VCList \<Rightarrow> bool" where
  "L_Empty l = (L_entries l = [])"

definition inter_carriers :: "'c VC list \<Rightarrow> 'c bitset_t" where
  "inter_carriers vs = foldr (\<lambda>v acc. VC_Carrier v \<inter> acc) vs UNIV"

definition HardIntersection :: "'c VCList \<Rightarrow> 'c bitset_t" where
  "HardIntersection l = inter_carriers (L_entries l)"

definition soft_entries :: "'c VCList \<Rightarrow> 'c VC list" where
  "soft_entries l = take (L_Softlimit l) (L_entries l)"

definition SoftIntersection :: "'c VCList \<Rightarrow> 'c bitset_t" where
  "SoftIntersection l = inter_carriers (soft_entries l)"

definition IsSupersetOfAny :: "'c VCList \<Rightarrow> 'c bitset_t \<Rightarrow> bool" where
  "IsSupersetOfAny l c = list_ex (\<lambda>v. VC_Carrier v \<subseteq> c) (L_entries l)"

definition insert_pos :: "'c::finite VC list \<Rightarrow> 'c VC \<Rightarrow> nat" where
  "insert_pos vs vc =
     length (takeWhile (\<lambda>v. card (VC_Carrier v) \<le> card (VC_Carrier vc)) vs)"

text \<open>Modelled from the spec: \<open>VCList::Add\<close> (section 4.2).  A connection whose carrier
  is a superset of a carrier of the list is refused; otherwise the supersets of the new
  carrier are removed, and the connection is inserted by carrier size.  The spec leaves
  the place among entries of the same size open: here it is after them.\<close>

definition L_Add ::
  "'c::finite VCList \<Rightarrow> 'c VC \<Rightarrow> 'c ChangeLog \<Rightarrow> AddResult \<times> 'c VCList \<times> 'c ChangeLog" where
  "L_Add l vc lg =
     (if IsSupersetOfAny l (VC_Carrier vc) then (ADD_FAILED, l, lg)
      else
        let removed = filter (\<lambda>v. VC_Carrier vc \<subseteq> VC_Carrier v) (L_entries l);
            kept = filter (\<lambda>v. \<not> VC_Carrier vc \<subseteq> VC_Carrier v) (L_entries l);
            pos = insert_pos kept vc
        in (if pos < L_Softlimit l then ADDED_INSIDE_SOFT_LIMIT else ADDED_INSIDE_HARD_LIMIT,
            l\<lparr>L_entries := take pos kept @ [vc] @ drop pos kept\<rparr>,
            log_push ADD vc (log_push_all REMOVE removed lg)))"

text \<open>\<open>VCList::Add(const VCList&)\<close>: every entry of the other list, in order.\<close>

fun L_Append ::
  "'c::finite VCList \<Rightarrow> 'c VC list \<Rightarrow> 'c ChangeLog \<Rightarrow> 'c VCList \<times> 'c ChangeLog" where
  "L_Append l [] lg = (l, lg)"
| "L_Append l (v # vs) lg = (case L_Add l v lg of (r, l', lg') \<Rightarrow> L_Append l' vs lg')"

text \<open>Modelled from the spec: \<open>RemoveAllContaining\<close> takes out the entries whose carrier
  meets the set and hands them back; \<open>RemoveSuperSetsOf\<close> takes out the entries whose
  carrier contains the set (section 4.2).\<close>

definition L_RemoveAllContaining ::
  "'c VCList \<Rightarrow> 'c bitset_t \<Rightarrow> 'c ChangeLog \<Rightarrow> 'c VC list \<times> 'c VCList \<times> 'c ChangeLog" where
  "L_RemoveAllContaining l bs lg =
     (let removed = filter (\<lambda>v. VC_Carrier v \<inter> bs \<noteq> {}) (L_entries l)
      in (removed,
          l\<lparr>L_entries := filter (\<lambda>v. VC_Carrier v \<inter> bs = {}) (L_entries l)\<rparr>,
          log_push_all REMOVE removed lg))"

definition L_RemoveSuperSetsOf ::
  "'c VCList \<Rightarrow> 'c bitset_t \<Rightarrow> 'c ChangeLog \<Rightarrow> 'c VCList \<times> 'c ChangeLog" where
  "L_RemoveSuperSetsOf l c lg =
     (l\<lparr>L_entries := filter (\<lambda>v. \<not> c \<subseteq> VC_Carrier v) (L_entries l)\<rparr>,
      log_push_all REMOVE (filter (\<lambda>v. c \<subseteq> VC_Carrier v) (L_entries l)) lg)"

text \<open>\<open>FindInList\<close> returns a pointer into the list or null: here the index of the
  entry, or \<open>None\<close>.\<close>

fun find_index_from :: "nat \<Rightarrow> ('a \<Rightarrow> bool) \<Rightarrow> 'a list \<Rightarrow> nat option" where
  "find_index_from n P [] = None"
| "find_index_from n P (v # vs) = (if P v then Some n else find_index_from (Suc n) P vs)"

definition FindInList :: "'c VCList \<Rightarrow> 'c VC \<Rightarrow> nat option" where
  "FindInList l vc = find_index_from 0 (vc_eq vc) (L_entries l)"

text \<open>Modelled from the spec: \<open>GetUnion\<close>, the union of all carriers of the list
  (section 4.2).\<close>

definition GetUnion :: "'c VCList \<Rightarrow> 'c bitset_t" where
  "GetUnion l = foldr (\<lambda>v acc. VC_Carrier v \<union> acc) (L_entries l) {}"

text \<open>Modelled from the spec: \<open>GetGreedyUnion\<close> keeps a running intersection and skips a
  carrier that does not shrink it (section 4.2).\<close>

fun greedy_union :: "'c VC list \<Rightarrow> 'c bitset_t \<Rightarrow> 'c bitset_t \<Rightarrow> 'c bitset_t" where
  "greedy_union [] I U = U"
| "greedy_union (v # vs) I U =
     (if I \<inter> VC_Carrier v = I then greedy_union vs I U
      else greedy_union vs (I \<inter> VC_Carrier v) (U \<union> VC_Carrier v))"

definition GetGreedyUnion :: "'c VCList \<Rightarrow> 'c bitset_t" where
  "GetGreedyUnion l = greedy_union (L_entries l) UNIV {}"

section \<open>The set of lists\<close>

text \<open>
  Modelled from the spec: class \<open>VCSet\<close> (section 3).  Two tables of lists, one per
  type, keyed by the unordered endpoint pair; \<open>GetList\<close> normalises the pair, so the two
  orders of a pair name the same list.
\<close>

type_synonym 'c VCSet = "VCType \<Rightarrow> 'c \<times> 'c \<Rightarrow> 'c VCList"

definition pair_key :: "'c::linorder \<Rightarrow> 'c \<Rightarrow> 'c \<times> 'c" where
  "pair_key x y = (min x y, max x y)"

definition GetList :: "'c::linorder VCSet \<Rightarrow> VCType \<Rightarrow> 'c \<Rightarrow> 'c \<Rightarrow> 'c VCList" where
  "GetList con t x y = con t (pair_key x y)"

definition SetList :: "'c::linorder VCSet \<Rightarrow> VCType \<Rightarrow> 'c \<Rightarrow> 'c \<Rightarrow> 'c VCList \<Rightarrow> 'c VCSet" where
  "SetList con t x y l = con(t := (con t)(pair_key x y := l))"

definition VCSet_Clear :: "'c VCSet \<Rightarrow> 'c VCSet" where
  "VCSet_Clear con = (\<lambda>t k. (con t k)\<lparr>L_entries := []\<rparr>)"

definition VCSet_Exists :: "'c::linorder VCSet \<Rightarrow> 'c \<Rightarrow> 'c \<Rightarrow> VCType \<Rightarrow> bool" where
  "VCSet_Exists con x y t = (\<not> L_Empty (GetList con t x y))"

definition VCSet_Add ::
  "'c::{finite,linorder} VCSet \<Rightarrow> 'c VC \<Rightarrow> 'c ChangeLog \<Rightarrow> AddResult \<times> 'c VCSet \<times> 'c ChangeLog" where
  "VCSet_Add con vc lg =
     (case L_Add (GetList con (GetType vc) (VC_X vc) (VC_Y vc)) vc lg of
        (r, l', lg') \<Rightarrow> (r, SetList con (GetType vc) (VC_X vc) (VC_Y vc) l', lg'))"

section \<open>The work queues\<close>

text \<open>Both queues are a vector with a head cursor: \<open>Push\<close> appends, \<open>Pop\<close> moves the
  cursor.  \<open>Front\<close> reads \<open>m_array[m_head]\<close>; a read past the end (undefined in the
  source) is \<open>None\<close>.\<close>

record 'c FullVCQueue =
  fq_head :: nat
  fq_array :: "'c VC list"

definition FullVCQueue_Empty :: "'c FullVCQueue \<Rightarrow> bool" where
  "FullVCQueue_Empty q = (fq_head q = length (fq_array q))"

definition FullVCQueue_Front :: "'c FullVCQueue \<Rightarrow> 'c VC option" where
  "FullVCQueue_Front q =
     (if fq_head q < length (fq_array q) then Some (fq_array q ! fq_head q) else None)"

definition FullVCQueue_Clear :: "'c FullVCQueue" where
  "FullVCQueue_Clear = \<lparr>fq_head = 0, fq_array = []\<rparr>"

definition FullVCQueue_Pop :: "'c FullVCQueue \<Rightarrow> 'c FullVCQueue" where
  "FullVCQueue_Pop q = q\<lparr>fq_head := fq_head q + 1\<rparr>"

definition FullVCQueue_Push :: "'c VC \<Rightarrow> 'c FullVCQueue \<Rightarrow> 'c FullVCQueue" where
  "FullVCQueue_Push vc q = q\<lparr>fq_array := fq_array q @ [vc]\<rparr>"

record 'c SemiEndsQueue =
  sq_head :: nat
  sq_array :: "('c \<times> 'c) list"
  sq_seen :: "'c \<Rightarrow> 'c \<Rightarrow> bool"

definition SemiEndsQueue_Empty :: "'c SemiEndsQueue \<Rightarrow> bool" where
  "SemiEndsQueue_Empty q = (sq_head q = length (sq_array q))"

definition SemiEndsQueue_Front :: "'c SemiEndsQueue \<Rightarrow> ('c \<times> 'c) option" where
  "SemiEndsQueue_Front q =
     (if sq_head q < length (sq_array q) then Some (sq_array q ! sq_head q) else None)"

definition SemiEndsQueue_Clear :: "'c SemiEndsQueue" where
  "SemiEndsQueue_Clear = \<lparr>sq_head = 0, sq_array = [], sq_seen = (\<lambda>a b. False)\<rparr>"

definition SemiEndsQueue_Pop :: "'c SemiEndsQueue \<Rightarrow> 'c SemiEndsQueue" where
  "SemiEndsQueue_Pop q =
     (case SemiEndsQueue_Front q of
        None \<Rightarrow> q\<lparr>sq_head := sq_head q + 1\<rparr>
      | Some (a, b) \<Rightarrow>
          q\<lparr>sq_seen := (sq_seen q)(a := (sq_seen q a)(b := False)),
            sq_head := sq_head q + 1\<rparr>)"

definition SemiEndsQueue_Push :: "'c::linorder \<times> 'c \<Rightarrow> 'c SemiEndsQueue \<Rightarrow> 'c SemiEndsQueue" where
  "SemiEndsQueue_Push p q =
     (let a = min (fst p) (snd p); b = max (fst p) (snd p)
      in if \<not> sq_seen q a b
         then q\<lparr>sq_seen := (sq_seen q)(a := (sq_seen q a)(a := True)),
                sq_array := sq_array q @ [(a, b)]\<rparr>
         else q)"

text \<open>The pairs waiting in the queue: the part of the vector from the head cursor on.\<close>

definition sq_pending :: "'c SemiEndsQueue \<Rightarrow> ('c \<times> 'c) list" where
  "sq_pending q = drop (sq_head q) (sq_array q)"


section \<open>The builder: parameters, inputs and state\<close>

record VCBuilderParam =
  max_ors :: int
  and_over_edge :: bool
  use_patterns :: bool
  use_non_edge_patterns :: bool
  use_greedy_union :: bool
  abort_on_winning_connection :: bool

definition VCBuilderParam_default :: VCBuilderParam where
  "VCBuilderParam_default =
     \<lparr>max_ors = 4, and_over_edge = False, use_patterns = True, use_non_edge_patterns = True,
      use_greedy_union = True, abort_on_winning_connection = False\<rparr>"

text \<open>
  The board, the groups and the pattern tables are classes whose sources are not at hand;
  the builder only reads them, so they are parameters: what each query of the builder
  returns.  \<open>Groups\<close> carries its board (\<open>m_brd = &m_groups->Board()\<close>).
\<close>

record 'c Group =
  G_Captain :: 'c
  G_Color :: HexColor
  G_Nbs :: "'c bitset_t"

record 'c Groups =
  GetColor :: "'c \<Rightarrow> HexColor"
  CaptainOf :: "'c \<Rightarrow> 'c"
  AllGroups :: "'c Group list"
  EdgesAndInterior :: "'c list"
  Board_Nbs :: "'c \<Rightarrow> 'c list"

definition IsCaptain :: "'c Groups \<Rightarrow> 'c \<Rightarrow> bool" where
  "IsCaptain g p = (CaptainOf g p = p)"

definition GetEmpty :: "'c Groups \<Rightarrow> 'c bitset_t" where
  "GetEmpty g = {p \<in> set (EdgesAndInterior g). GetColor g p = EMPTY}"

definition GetColorSet :: "'c Groups \<Rightarrow> HexColor \<Rightarrow> 'c bitset_t" where
  "GetColorSet g c = {p \<in> set (EdgesAndInterior g). GetColor g p = c}"

text \<open>\<open>GroupIterator(groups, colorset)\<close> and \<open>Stones(colorset)\<close>: the groups, and the
  cells, whose colour is in the set, in iteration order.\<close>

definition GroupIterator :: "'c Groups \<Rightarrow> HexColor set \<Rightarrow> 'c Group list" where
  "GroupIterator g cs = filter (\<lambda>x. G_Color x \<in> cs) (AllGroups g)"

definition Stones :: "'c Groups \<Rightarrow> HexColor set \<Rightarrow> 'c list" where
  "Stones g cs = filter (\<lambda>p. GetColor g p \<in> cs) (EdgesAndInterior g)"

definition NotColor :: "HexColor \<Rightarrow> HexColor set" where
  "NotColor c = UNIV - {c}"

definition ColorOrEmpty :: "HexColor \<Rightarrow> HexColor set" where
  "ColorOrEmpty c = {c, EMPTY}"

record 'c VCPattern =
  Endpoint0 :: 'c
  Endpoint1 :: 'c
  NotOpponent :: "'c bitset_t"
  Matches :: bool

record 'c env =
  m_param :: VCBuilderParam
  m_color :: HexColor
  m_groups :: "'c Groups"
  isEdge :: "'c \<Rightarrow> bool"
  colorEdge1 :: 'c
  colorEdge2 :: 'c
  MatchOnCell :: "'c \<Rightarrow> 'c list list"
  GetPatterns :: "'c VCPattern list"

record VCBuilderStatistics =
  base_attempts :: nat
  base_successes :: nat
  pattern_attempts :: nat
  pattern_successes :: nat
  and_full_attempts :: nat
  and_full_successes :: nat
  and_semi_attempts :: nat
  and_semi_successes :: nat
  or_attempts :: nat
  or_successes :: nat
  doOrs :: nat
  goodOrs :: nat
  shrunk0 :: nat
  shrunk1 :: nat
  upgraded :: nat
  killed0 :: nat
  killed1 :: nat

record 'c builder =
  m_con :: "'c VCSet"
  m_log :: "'c ChangeLog"
  m_statistics :: VCBuilderStatistics
  m_fulls_queue :: "'c FullVCQueue"
  m_semis_queue :: "'c SemiEndsQueue"
  m_nbs :: "'c \<Rightarrow> 'c bitset_t"
  m_capturedSet :: "'c \<Rightarrow> 'c bitset_t"

section \<open>Adding connections\<close>

definition PushFull :: "'c env \<Rightarrow> 'c VC \<Rightarrow> 'c builder \<Rightarrow> 'c builder" where
  "PushFull e vc s =
     (let x = CaptainOf (m_groups e) (VC_X vc);
          y = CaptainOf (m_groups e) (VC_Y vc);
          nbs1 = (m_nbs s)(x := insert y (m_nbs s x));
          nbs2 = nbs1(y := insert x (nbs1 y))
      in s\<lparr>m_fulls_queue := FullVCQueue_Push vc (m_fulls_queue s), m_nbs := nbs2\<rparr>)"

definition AddNewFull ::
  "'c::{finite,linorder} env \<Rightarrow> 'c VC \<Rightarrow> 'c builder \<Rightarrow> assertion + bool \<times> 'c builder" where
  "AddNewFull e vc s =
     (if GetType vc \<noteq> FULL then Inl Assert_type_full
      else
        case VCSet_Add (m_con s) vc (m_log s) of
          (result, con1, log1) \<Rightarrow>
            if result \<noteq> ADD_FAILED then
              (case L_RemoveSuperSetsOf (GetList con1 SEMI (VC_X vc) (VC_Y vc))
                      (VC_Carrier vc) log1 of
                 (semis, log2) \<Rightarrow>
                   Inr (True,
                        PushFull e vc
                          (s\<lparr>m_con := SetList con1 SEMI (VC_X vc) (VC_Y vc) semis,
                             m_log := log2\<rparr>)))
            else Inr (False, s))"

definition AddNewSemi :: "'c::{finite,linorder} VC \<Rightarrow> 'c builder \<Rightarrow> bool \<times> 'c builder" where
  "AddNewSemi vc s =
     (let outFull = GetList (m_con s) FULL (VC_X vc) (VC_Y vc);
          outSemi = GetList (m_con s) SEMI (VC_X vc) (VC_Y vc)
      in if \<not> IsSupersetOfAny outFull (VC_Carrier vc) then
           (case L_Add outSemi vc (m_log s) of
              (result, semis, log1) \<Rightarrow>
                if result \<noteq> ADD_FAILED then
                  (True,
                   s\<lparr>m_con := SetList (m_con s) SEMI (VC_X vc) (VC_Y vc) semis,
                     m_log := log1,
                     m_semis_queue := SemiEndsQueue_Push (VC_X vc, VC_Y vc) (m_semis_queue s)\<rparr>)
                else (False, s))
         else (False, s))"

section \<open>The AND rule\<close>

datatype AndRule = CREATE_FULL | CREATE_SEMI

text \<open>
  One pass of the loop of \<open>DoAnd\<close>, for the list entry \<open>i\<close>: the connections the pass
  hands to \<open>AddNewFull\<close> or \<open>AddNewSemi\<close>, in the order of the calls.  A Full goes to
  \<open>AddNewFull\<close>, a Semi to \<open>AddNewSemi\<close>.  The first element of a \<open>BitsetIterator\<close> is
  the least cell of the set, and the iterator is exhausted after one step when the set
  has no other cell.
\<close>

definition DoAnd_emit ::
  "'c::linorder \<Rightarrow> 'c \<Rightarrow> 'c \<Rightarrow> AndRule \<Rightarrow> 'c VC \<Rightarrow> 'c bitset_t \<Rightarrow> 'c VC \<Rightarrow> 'c VC list" where
  "DoAnd_emit from over to rule vc capturedSet i =
     (if \<not> VC_Processed i then []
      else if to \<in> VC_Carrier i then []
      else
        let intersection = VC_Carrier i \<inter> VC_Carrier vc in
        if intersection = {} then
          (case rule of
             CREATE_FULL \<Rightarrow> [AndVCs_full from to i vc]
           | CREATE_SEMI \<Rightarrow> [AndVCs_semi from to i vc over])
        else
          (if rule = CREATE_FULL \<and> intersection - {Min intersection} = {}
           then [AndVCs_semi from to i vc (Min intersection)] else []) @
          (if intersection \<subseteq> capturedSet then
             (case rule of
                CREATE_FULL \<Rightarrow> [AndVCs_full_cap from to i vc capturedSet]
              | CREATE_SEMI \<Rightarrow> [AndVCs_semi_cap from to i vc capturedSet over])
           else if rule = CREATE_FULL
                   \<and> (intersection - capturedSet) - {Min (intersection - capturedSet)} = {}
           then [AndVCs_semi_cap from to i vc capturedSet (Min (intersection - capturedSet))]
           else []))"

text \<open>One call of the pass: the attempt counter, the add, the success counter.\<close>

definition DoAnd_add ::
  "'c::{finite,linorder} env \<Rightarrow> 'c VC \<Rightarrow> 'c builder \<Rightarrow> assertion + 'c builder" where
  "DoAnd_add e v s =
     (case GetType v of
        FULL \<Rightarrow>
          (let st1 = (m_statistics s)\<lparr>and_full_attempts := and_full_attempts (m_statistics s) + 1\<rparr>
           in case AddNewFull e v (s\<lparr>m_statistics := st1\<rparr>) of
                Inl a \<Rightarrow> Inl a
              | Inr (ok, s1) \<Rightarrow>
                  Inr (if ok
                       then s1\<lparr>m_statistics := (m_statistics s1)
                                 \<lparr>and_full_successes := and_full_successes (m_statistics s1) + 1\<rparr>\<rparr>
                       else s1))
      | SEMI \<Rightarrow>
          (let st1 = (m_statistics s)\<lparr>and_semi_attempts := and_semi_attempts (m_statistics s) + 1\<rparr>
           in case AddNewSemi v (s\<lparr>m_statistics := st1\<rparr>) of
                (ok, s1) \<Rightarrow>
                  Inr (if ok
                       then s1\<lparr>m_statistics := (m_statistics s1)
                                 \<lparr>and_semi_successes := and_semi_successes (m_statistics s1) + 1\<rparr>\<rparr>
                       else s1)))"

fun DoAnd_adds ::
  "'c::{finite,linorder} env \<Rightarrow> 'c VC list \<Rightarrow> 'c builder \<Rightarrow> assertion + 'c builder" where
  "DoAnd_adds e [] s = Inr s"
| "DoAnd_adds e (v # vs) s =
     (case DoAnd_add e v s of Inl a \<Rightarrow> Inl a | Inr s1 \<Rightarrow> DoAnd_adds e vs s1)"

fun DoAnd_loop ::
  "'c::{finite,linorder} env \<Rightarrow> 'c \<Rightarrow> 'c \<Rightarrow> 'c \<Rightarrow> AndRule \<Rightarrow> 'c VC \<Rightarrow> 'c bitset_t \<Rightarrow>
   'c VC list \<Rightarrow> 'c builder \<Rightarrow> assertion + 'c builder" where
  "DoAnd_loop e from over to rule vc capturedSet [] s = Inr s"
| "DoAnd_loop e from over to rule vc capturedSet (i # is) s =
     (case DoAnd_adds e (DoAnd_emit from over to rule vc capturedSet i) s of
        Inl a \<Rightarrow> Inl a
      | Inr s1 \<Rightarrow> DoAnd_loop e from over to rule vc capturedSet is s1)"

text \<open>\<open>DoAnd\<close> walks the soft prefix of \<open>old\<close>, the Full list between \<open>from\<close> and \<open>over\<close>.
  Its adds go to the lists between \<open>from\<close> and \<open>to\<close>, so \<open>old\<close> is the same list
  throughout the walk.\<close>

definition DoAnd ::
  "'c::{finite,linorder} env \<Rightarrow> 'c \<Rightarrow> 'c \<Rightarrow> 'c \<Rightarrow> AndRule \<Rightarrow> 'c VC \<Rightarrow> 'c bitset_t \<Rightarrow>
   'c VCList \<Rightarrow> 'c builder \<Rightarrow> assertion + 'c builder" where
  "DoAnd e from over to rule vc capturedSet old s =
     (if L_Empty old then Inr s
      else DoAnd_loop e from over to rule vc capturedSet (soft_entries old) s)"

text \<open>\<open>AndClosure\<close> chooses the rule by the colour \<open>endc[i]\<close> of the endpoint it goes over.\<close>

definition AndRule_of :: "HexColor \<Rightarrow> AndRule" where
  "AndRule_of endc = (if endc = EMPTY then CREATE_SEMI else CREATE_FULL)"

text \<open>The body of the inner loop of \<open>AndClosure\<close>, for the neighbour \<open>z\<close> of the endpoint
  \<open>endp_i\<close> (of colour \<open>endc_i\<close>); \<open>endp_j\<close> is the other endpoint.\<close>

definition AndClosure_nbr ::
  "'c::{finite,linorder} env \<Rightarrow> 'c VC \<Rightarrow> 'c \<Rightarrow> 'c \<Rightarrow> HexColor \<Rightarrow> 'c \<Rightarrow> 'c builder \<Rightarrow>
   assertion + 'c builder" where
  "AndClosure_nbr e vc endp_i endp_j endc_i z s =
     (if z \<noteq> CaptainOf (m_groups e) z then Inl Assert_nbr_is_captain
      else if z = endp_i \<or> z = endp_j then Inr s
      else if z \<in> VC_Carrier vc then Inr s
      else
        let vcCapturedSet = m_capturedSet s endp_i \<union> m_capturedSet s endp_j;
            capturedSet = vcCapturedSet \<union> m_capturedSet s z;
            uncapturedSet = - capturedSet;
            fulls = GetList (m_con s) FULL z endp_i
        in if SoftIntersection fulls \<inter> VC_Carrier vc \<inter> uncapturedSet \<noteq> {} then Inr s
           else
             let rule = AndRule_of endc_i
             in DoAnd e z endp_i endp_j rule vc capturedSet fulls s)"

fun AndClosure_nbrs ::
  "'c::{finite,linorder} env \<Rightarrow> 'c VC \<Rightarrow> 'c \<Rightarrow> 'c \<Rightarrow> HexColor \<Rightarrow> 'c list \<Rightarrow> 'c builder \<Rightarrow>
   assertion + 'c builder" where
  "AndClosure_nbrs e vc endp_i endp_j endc_i [] s = Inr s"
| "AndClosure_nbrs e vc endp_i endp_j endc_i (z # zs) s =
     (case AndClosure_nbr e vc endp_i endp_j endc_i z s of
        Inl a \<Rightarrow> Inl a
      | Inr s1 \<Rightarrow> AndClosure_nbrs e vc endp_i endp_j endc_i zs s1)"

definition AndClosure_end ::
  "'c::{finite,linorder} env \<Rightarrow> 'c VC \<Rightarrow> 'c \<Rightarrow> 'c \<Rightarrow> HexColor \<Rightarrow> 'c builder \<Rightarrow>
   assertion + 'c builder" where
  "AndClosure_end e vc endp_i endp_j endc_i s =
     (if and_over_edge (m_param e) \<or> \<not> isEdge e endp_i
      then AndClosure_nbrs e vc endp_i endp_j endc_i (sorted_list_of_set (m_nbs s endp_i)) s
      else Inr s)"

definition AndClosure ::
  "'c::{finite,linorder} env \<Rightarrow> 'c VC \<Rightarrow> 'c builder \<Rightarrow> assertion + 'c builder" where
  "AndClosure e vc s =
     (let other = other_color (m_color e);
          endp0 = CaptainOf (m_groups e) (VC_X vc);
          endp1 = CaptainOf (m_groups e) (VC_Y vc);
          endc0 = GetColor (m_groups e) endp0;
          endc1 = GetColor (m_groups e) endp1
      in if endc0 = other \<or> endc1 = other then Inl Assert_endpoint_not_opponent
         else
           case AndClosure_end e vc endp0 endp1 endc0 s of
             Inl a \<Rightarrow> Inl a
           | Inr s1 \<Rightarrow> AndClosure_end e vc endp1 endp0 endc1 s1)"

text \<open>\<open>ProcessFulls\<close> holds a pointer \<open>cur\<close> into the list across the call of
  \<open>AndClosure\<close>: here the index of the entry.\<close>

definition ProcessFulls ::
  "'c::{finite,linorder} env \<Rightarrow> 'c VC \<Rightarrow> 'c builder \<Rightarrow> assertion + 'c builder" where
  "ProcessFulls e vc s =
     (let fulls = GetList (m_con s) FULL (VC_X vc) (VC_Y vc) in
      case FindInList fulls vc of
        None \<Rightarrow> Inr s
      | Some n \<Rightarrow>
          if VC_Processed (L_entries fulls ! n) then Inr s
          else
            (case AndClosure e (L_entries fulls ! n) s of
               Inl a \<Rightarrow> Inl a
             | Inr s1 \<Rightarrow>
                 let fulls1 = GetList (m_con s1) FULL (VC_X vc) (VC_Y vc) in
                 if n < length (L_entries fulls1) \<and> vc_eq (L_entries fulls1 ! n) vc then
                   let cur = (L_entries fulls1 ! n)\<lparr>VC_Processed := True\<rparr>
                   in Inr (s1\<lparr>m_con := SetList (m_con s1) FULL (VC_X vc) (VC_Y vc)
                                         (fulls1\<lparr>L_entries := list_update (L_entries fulls1) n cur\<rparr>),
                               m_log := log_push PROCESSED cur (m_log s1)\<rparr>)
                 else Inl Assert_full_unchanged))"

section \<open>The OR rule, bounded\<close>

text \<open>
  \<open>OrRule::operator()\<close>.  \<open>m_semi\<close> is the processed part of the soft prefix, \<open>m_tail[i]\<close>
  the intersection of the carriers of \<open>m_semi[i..N-1]\<close>; \<open>index\<close>, \<open>ors\<close> and \<open>ands\<close> are
  the three arrays of the depth-first enumeration and \<open>d\<close> its depth.
\<close>

fun tail_inter :: "'c VC list \<Rightarrow> 'c bitset_t list" where
  "tail_inter [] = []"
| "tail_inter [v] = [VC_Carrier v]"
| "tail_inter (v # w # vs) = (VC_Carrier v \<inter> hd (tail_inter (w # vs))) # tail_inter (w # vs)"

record 'c or_state =
  os_d :: nat
  os_index :: "nat \<Rightarrow> nat"
  os_ors :: "nat \<Rightarrow> 'c bitset_t"
  os_ands :: "nat \<Rightarrow> 'c bitset_t"
  os_count :: nat
  os_fulls :: "'c VCList"
  os_added :: "'c VC list"
  os_log :: "'c ChangeLog"
  os_stats :: VCBuilderStatistics

text \<open>The add of a new Full inside the enumeration: not through \<open>AddNewFull\<close>.\<close>

definition OrRule_add :: "'c::{finite,linorder} bitset_t \<Rightarrow> 'c or_state \<Rightarrow> 'c or_state" where
  "OrRule_add carrier t =
     (let v = VC_full (L_X (os_fulls t)) (L_Y (os_fulls t)) carrier VC_RULE_OR;
          st1 = (os_stats t)\<lparr>or_attempts := or_attempts (os_stats t) + 1\<rparr>
      in case L_Add (os_fulls t) v (os_log t) of
           (result, fulls1, log1) \<Rightarrow>
             if result \<noteq> ADD_FAILED
             then t\<lparr>os_count := os_count t + 1,
                    os_fulls := fulls1, os_log := log1,
                    os_stats := st1\<lparr>or_successes := or_successes st1 + 1\<rparr>,
                    os_added := os_added t @ [v]\<rparr>
             else t\<lparr>os_fulls := fulls1, os_log := log1, os_stats := st1\<rparr>)"

definition next_index :: "'c or_state \<Rightarrow> 'c or_state" where
  "next_index t = t\<lparr>os_index := (os_index t)(os_d t := os_index t (os_d t) + 1)\<rparr>"

text \<open>The loop stops with \<open>None\<close> where the source would read \<open>m_semi\<close> past its end
  (\<open>index[d]\<close> above \<open>N\<close>), which no run from \<open>d = 1\<close>, \<open>index[1] = 0\<close> reaches.\<close>

partial_function (option) OrRule_loop ::
  "'c::{finite,linorder} VC list \<Rightarrow> 'c bitset_t list \<Rightarrow> int \<Rightarrow> 'c bitset_t \<Rightarrow>
   'c bitset_t \<Rightarrow> 'c bitset_t \<Rightarrow> 'c or_state \<Rightarrow> 'c or_state option" where
  "OrRule_loop m_semi m_tail maxOrs capX capY capturedSet t =
     (let N = length m_semi;
          d = os_d t;
          i0 = os_index t d;
          i = (if i0 < N \<and> os_ands t (d - 1) \<inter> (m_tail ! i0) \<inter> (- capturedSet) \<noteq> {}
               then N else i0)
      in if i = N then
           (if d = 1 then Some t
            else OrRule_loop m_semi m_tail maxOrs capX capY capturedSet
                   (t\<lparr>os_d := d - 1, os_index := (os_index t)(d - 1 := os_index t (d - 1) + 1)\<rparr>))
         else if N < i then None
         else
           let and_d = os_ands t (d - 1) \<inter> VC_Carrier (m_semi ! i);
               or_d = os_ors t (d - 1) \<union> VC_Carrier (m_semi ! i);
               t1 = t\<lparr>os_ands := (os_ands t)(d := and_d), os_ors := (os_ors t)(d := or_d)\<rparr>
           in if and_d = {} then
                OrRule_loop m_semi m_tail maxOrs capX capY capturedSet
                  (next_index (OrRule_add or_d t1))
              else if and_d \<subseteq> capturedSet then
                OrRule_loop m_semi m_tail maxOrs capX capY capturedSet
                  (next_index
                    (OrRule_add
                      (or_d \<union> (if and_d \<inter> capX \<noteq> {} then capX else {})
                            \<union> (if and_d \<inter> capY \<noteq> {} then capY else {})) t1))
              else if and_d = os_ands t (d - 1) then
                OrRule_loop m_semi m_tail maxOrs capX capY capturedSet (next_index t1)
              else if int d < maxOrs then
                OrRule_loop m_semi m_tail maxOrs capX capY capturedSet
                  (t1\<lparr>os_d := d + 1, os_index := (os_index t1)(d + 1 := i + 1)\<rparr>)
              else
                OrRule_loop m_semi m_tail maxOrs capX capY capturedSet (next_index t1))"

text \<open>The result: the count, and the full list, \<open>added\<close>, the log and the statistics as
  the call leaves them.\<close>

definition OrRule ::
  "('c::{finite,linorder} \<Rightarrow> 'c bitset_t) \<Rightarrow> 'c VC \<Rightarrow> 'c VCList \<Rightarrow> 'c VCList \<Rightarrow> 'c VC list \<Rightarrow>
   int \<Rightarrow> 'c ChangeLog \<Rightarrow> VCBuilderStatistics \<Rightarrow>
   (assertion + nat \<times> 'c VCList \<times> 'c VC list \<times> 'c ChangeLog \<times> VCBuilderStatistics) option" where
  "OrRule capSet vc semi_list full_list added maxOrs lg stats =
     (if L_Empty semi_list then Some (Inr (0, full_list, added, lg, stats))
      else
        let m_semi = filter VC_Processed (soft_entries semi_list) in
        if m_semi = [] then Some (Inr (0, full_list, added, lg, stats))
        else if \<not> maxOrs - 1 < 16 then Some (Inl Assert_maxOrs)
        else
          let capX = capSet (L_X semi_list);
              capY = capSet (L_Y semi_list)
          in case OrRule_loop m_semi (tail_inter m_semi) (maxOrs - 1) capX capY (capX \<union> capY)
                    \<lparr>os_d = 1, os_index = (\<lambda>k. 0),
                     os_ors = (\<lambda>k. VC_Carrier vc), os_ands = (\<lambda>k. VC_Carrier vc),
                     os_count = 0, os_fulls = full_list, os_added = added, os_log = lg,
                     os_stats = stats\<rparr> of
               None \<Rightarrow> None
             | Some t \<Rightarrow> Some (Inr (os_count t, os_fulls t, os_added t, os_log t, os_stats t)))"

section \<open>The OR rule, enhanced\<close>

text \<open>
  Class \<open>VCOrCombiner\<close>.  \<open>set_mem\<close> is the scratch vector; a call of \<open>Search\<close> owns four
  consecutive ranges of it, the new semis from \<open>new_semis\<close>, then the old semis, the
  filtered fulls, and the new connections.
\<close>

record 'c VCOrCombiner =
  oc_x :: 'c
  oc_y :: 'c
  x_capture_set :: "'c bitset_t"
  y_capture_set :: "'c bitset_t"
  oc_full_list :: "'c VCList"
  oc_added :: "'c VC list"
  oc_log :: "'c ChangeLog"
  oc_stats :: VCBuilderStatistics
  set_mem :: "'c bitset_t list"

definition mem_range :: "'c VCOrCombiner \<Rightarrow> nat \<Rightarrow> nat \<Rightarrow> 'c bitset_t list" where
  "mem_range c start count = take count (drop start (set_mem c))"

definition Intersect :: "'c VCOrCombiner \<Rightarrow> nat \<Rightarrow> nat \<Rightarrow> 'c bitset_t" where
  "Intersect c start count = fold (\<lambda>s I. I \<inter> s) (mem_range c start count) UNIV"

text \<open>The loop of \<open>Add\<close> over \<open>set_mem[start .. start + count)\<close>: \<open>None\<close> when it runs off
  the range, where \<open>BenzeneAssert(i < count)\<close> fires.\<close>

fun Add_scan ::
  "'c bitset_t list \<Rightarrow> 'c bitset_t \<Rightarrow> 'c bitset_t \<Rightarrow> 'c bitset_t \<Rightarrow> 'c bitset_t option" where
  "Add_scan [] I U capturedSet = None"
| "Add_scan (next # rest) I U capturedSet =
     (if I \<subseteq> next then Add_scan rest I U capturedSet
      else if I \<inter> next \<subseteq> capturedSet then Some (U \<union> next)
      else Add_scan rest (I \<inter> next) (U \<union> next) capturedSet)"

definition Combiner_Add ::
  "nat \<Rightarrow> nat \<Rightarrow> 'c::{finite,linorder} bitset_t \<Rightarrow> 'c VCOrCombiner \<Rightarrow>
   assertion + 'c bitset_t \<times> 'c VCOrCombiner" where
  "Combiner_Add start count capturedSet c =
     (case Add_scan (mem_range c start count) UNIV capturedSet capturedSet of
        None \<Rightarrow> Inl Assert_add_index
      | Some U \<Rightarrow>
          let v = VC_full (oc_x c) (oc_y c) U VC_RULE_OR;
              st1 = (oc_stats c)\<lparr>or_attempts := or_attempts (oc_stats c) + 2\<rparr>
          in case L_Add (oc_full_list c) v (oc_log c) of
               (result, fulls1, log1) \<Rightarrow>
                 if result = ADD_FAILED then Inl Assert_enhanced_or_add
                 else Inr (U, c\<lparr>oc_full_list := fulls1, oc_log := log1,
                                 oc_stats := st1\<lparr>or_successes := or_successes st1 + 1\<rparr>,
                                 oc_added := oc_added c @ [v]\<rparr>))"

definition Combiner_Filter :: "nat \<Rightarrow> nat \<Rightarrow> 'c \<Rightarrow> 'c VCOrCombiner \<Rightarrow> nat \<times> 'c VCOrCombiner" where
  "Combiner_Filter start count a c =
     (let kept = filter (\<lambda>s. a \<notin> s) (mem_range c start count)
      in (length kept, c\<lparr>set_mem := set_mem c @ kept\<rparr>))"

text \<open>The \<open>for\<close> loop that picks the smallest allowed set; \<open>min_size\<close> starts at the
  largest \<open>size_t\<close>, here \<open>None\<close>.\<close>

fun pick_allowed ::
  "'c bitset_t list \<Rightarrow> 'c bitset_t \<Rightarrow> nat option \<times> 'c bitset_t \<Rightarrow> nat option \<times> 'c bitset_t" where
  "pick_allowed [] forbidden acc = acc"
| "pick_allowed (s # rest) forbidden (min_size, allowed) =
     (let A = s - forbidden;
          smaller = (case min_size of None \<Rightarrow> True | Some m \<Rightarrow> card A < m)
      in pick_allowed rest forbidden (if smaller then (Some (card A), A) else (min_size, allowed)))"

lemma pick_allowed_disjoint:
  "snd acc \<inter> forbidden = {} \<Longrightarrow> snd (pick_allowed xs forbidden acc) \<inter> forbidden = {}"
proof (induction xs arbitrary: acc)
  case Nil
  then show ?case by simp
next
  case (Cons s rest)
  obtain m al where acc: "acc = (m, al)" by (cases acc)
  show ?case
    unfolding acc pick_allowed.simps Let_def
    by (rule Cons.IH) (use Cons.prems acc in auto)
qed

function Search ::
  "'c::{finite,linorder} bitset_t \<Rightarrow> bool \<Rightarrow> bool \<Rightarrow> nat \<Rightarrow> nat \<Rightarrow> nat \<Rightarrow> nat \<Rightarrow>
   'c VCOrCombiner \<Rightarrow> assertion + nat \<times> 'c VCOrCombiner"
and Search_loop ::
  "'c::{finite,linorder} bitset_t \<Rightarrow> bool \<Rightarrow> bool \<Rightarrow> nat \<Rightarrow> nat \<Rightarrow> nat \<Rightarrow> nat \<Rightarrow> nat \<Rightarrow>
   nat \<Rightarrow> 'c VCOrCombiner \<Rightarrow> assertion + nat \<times> 'c VCOrCombiner"
where
  "Search forbidden captureX captureY new_semis new_semis_count old_semis_count
     filtered_count c =
     (if \<not> 0 < new_semis_count then Inl Assert_new_semis_positive
      else
        let old_semis = new_semis + new_semis_count;
            I_new = Intersect c new_semis new_semis_count;
            I_old = Intersect c old_semis old_semis_count;
            I = I_new \<inter> I_old;
            capturedSet = (if captureX then x_capture_set c else {})
                          \<union> (if captureY then y_capture_set c else {})
        in if \<not> I \<subseteq> capturedSet
           then Inr (0, c\<lparr>set_mem := take new_semis (set_mem c)\<rparr>)
           else
             let filtered = old_semis + old_semis_count;
                 new_conn = filtered + filtered_count
             in if filtered_count = 0 then
                  (let minCapturedSet =
                         (if I \<inter> x_capture_set c \<noteq> {} then x_capture_set c else {})
                         \<union> (if I \<inter> y_capture_set c \<noteq> {} then y_capture_set c else {})
                   in case Combiner_Add new_semis (new_semis_count + old_semis_count)
                             minCapturedSet c of
                        Inl a \<Rightarrow> Inl a
                      | Inr (new_t, c1) \<Rightarrow>
                          Search_loop (forbidden \<union> I_new) captureX captureY new_semis
                            new_semis_count old_semis_count new_conn 1 1
                            (c1\<lparr>set_mem := set_mem c1 @ [new_t]\<rparr>))
                else
                  Search_loop (forbidden \<union> I_new) captureX captureY new_semis
                    new_semis_count old_semis_count new_conn filtered_count 0 c)"
| "Search_loop forbidden captureX captureY new_semis new_semis_count old_semis_count
     new_conn filtered_count new_conn_count c =
     (let old_semis = new_semis + new_semis_count;
          filtered = old_semis + old_semis_count;
          picked = pick_allowed (mem_range c filtered filtered_count) forbidden (None, {});
          min_size = fst picked;
          allowed = snd picked
      in if min_size = Some 0 then
           Inr (new_conn_count,
                c\<lparr>set_mem := take new_semis (set_mem c) @ mem_range c new_conn new_conn_count\<rparr>)
         else if allowed = {} then Inl Assert_find_first
         else
           let a = Min allowed;
               forbidden1 = insert a forbidden;
               rec_new_semis = filtered + filtered_count
           in case Combiner_Filter new_semis new_semis_count a c of
                (rec_new_semis_count, c1) \<Rightarrow>
                  (case Combiner_Filter old_semis old_semis_count a c1 of
                     (rec_old_semis_count, c2) \<Rightarrow>
                       (case Combiner_Filter filtered filtered_count a c2 of
                          (rec_filtered_count, c3) \<Rightarrow>
                            (case Search forbidden1 (captureX \<and> a \<notin> x_capture_set c)
                                    (captureY \<and> a \<notin> y_capture_set c) rec_new_semis
                                    rec_new_semis_count rec_old_semis_count rec_filtered_count c3 of
                               Inl e \<Rightarrow> Inl e
                             | Inr (rec_new_conn_count, c4) \<Rightarrow>
                                 Search_loop forbidden1 captureX captureY new_semis
                                   new_semis_count old_semis_count new_conn
                                   (filtered_count + rec_new_conn_count)
                                   (new_conn_count + rec_new_conn_count) c4))))"
  by pat_completeness auto

lemma card_compl_insert: "a \<notin> (f::'c::finite set) \<Longrightarrow> card (- insert a f) < card (- f)"
  by (rule psubset_card_mono) auto

lemma card_compl_un: "card (- (f \<union> g)) \<le> card (- (f::'c::finite set))"
  by (rule card_mono) auto

text \<open>Every pass of the loop forbids one more cell, a cell of \<open>allowed\<close> and so not yet
  forbidden: the search ends.\<close>

termination Search
proof (relation "measure (\<lambda>x. case x of
          Inl (f, r) \<Rightarrow> 2 * card (- f) + 1
        | Inr (f, r) \<Rightarrow> 2 * card (- f))", goal_cases)
  case 1
  then show ?case by simp
next
  case (2 forbidden captureX captureY new_semis new_semis_count old_semis_count filtered_count c)
  then show ?case
    using card_compl_un[of forbidden "Intersect c new_semis new_semis_count"] by simp
next
  case (3 forbidden captureX captureY new_semis new_semis_count old_semis_count filtered_count c)
  then show ?case
    using card_compl_un[of forbidden "Intersect c new_semis new_semis_count"] by simp
next
  case (4 forbidden captureX captureY new_semis new_semis_count old_semis_count new_conn
          filtered_count new_conn_count c)
  define al where "al = snd (pick_allowed
      (mem_range c (new_semis + new_semis_count + old_semis_count) filtered_count)
      forbidden (None, {}))"
  have "al \<inter> forbidden = {}"
    unfolding al_def by (rule pick_allowed_disjoint) simp
  moreover have "Min al \<in> al"
    using 4 unfolding al_def by (intro Min_in) auto
  ultimately have "Min al \<notin> forbidden"
    by blast
  from card_compl_insert[OF this] 4 show ?case by (simp add: al_def)
next
  case (5 forbidden captureX captureY new_semis new_semis_count old_semis_count new_conn
          filtered_count new_conn_count c)
  define al where "al = snd (pick_allowed
      (mem_range c (new_semis + new_semis_count + old_semis_count) filtered_count)
      forbidden (None, {}))"
  have "al \<inter> forbidden = {}"
    unfolding al_def by (rule pick_allowed_disjoint) simp
  moreover have "Min al \<in> al"
    using 5 unfolding al_def by (intro Min_in) auto
  ultimately have "Min al \<notin> forbidden"
    by blast
  from card_compl_insert[OF this] 5 show ?case by (simp add: al_def)
qed

declare Search.simps [simp del] Search_loop.simps [simp del]

text \<open>The constructor of \<open>VCOrCombiner\<close> runs the search; \<open>DoOr\<close> returns its result and
  what it left in the full list, \<open>added\<close>, the log and the statistics.\<close>

definition DoOr ::
  "('c::{finite,linorder} \<Rightarrow> 'c bitset_t) \<Rightarrow> 'c VCList \<Rightarrow> 'c VCList \<Rightarrow> 'c VC list \<Rightarrow>
   'c ChangeLog \<Rightarrow> VCBuilderStatistics \<Rightarrow>
   assertion + bool \<times> 'c VCList \<times> 'c VC list \<times> 'c ChangeLog \<times> VCBuilderStatistics" where
  "DoOr captured_sets semi_list full_list added lg stats =
     (let new = map VC_Carrier (filter (\<lambda>v. \<not> VC_Processed v) (L_entries semi_list));
          old = map VC_Carrier (filter VC_Processed (L_entries semi_list));
          filtered = map VC_Carrier (L_entries full_list);
          c = \<lparr>oc_x = L_X semi_list, oc_y = L_Y semi_list,
               x_capture_set = captured_sets (L_X semi_list),
               y_capture_set = captured_sets (L_Y semi_list),
               oc_full_list = full_list, oc_added = added, oc_log = lg, oc_stats = stats,
               set_mem = new @ old @ filtered\<rparr>
      in if length new = 0 then Inr (False, full_list, added, lg, stats)
         else
           case Search {} True True 0 (length new) (length old) (length filtered) c of
             Inl a \<Rightarrow> Inl a
           | Inr (n, c1) \<Rightarrow>
               Inr (0 < n, oc_full_list c1, oc_added c1, oc_log c1, oc_stats c1))"

section \<open>Processing the queues\<close>

record 'c semis_state =
  ps_semis :: "'c VCList"
  ps_fulls :: "'c VCList"
  ps_added :: "'c VC list"
  ps_log :: "'c ChangeLog"
  ps_stats :: VCBuilderStatistics

definition set_processed :: "nat \<Rightarrow> 'c semis_state \<Rightarrow> 'c semis_state" where
  "set_processed k t =
     (let cur = (L_entries (ps_semis t) ! k)\<lparr>VC_Processed := True\<rparr>
      in t\<lparr>ps_semis := (ps_semis t)\<lparr>L_entries := list_update (L_entries (ps_semis t)) k cur\<rparr>,
            ps_log := log_push PROCESSED cur (ps_log t)\<rparr>)"

text \<open>The loop of the enhanced branch over the whole semi list, by position.\<close>

fun mark_all_processed :: "nat list \<Rightarrow> 'c semis_state \<Rightarrow> 'c semis_state" where
  "mark_all_processed [] t = t"
| "mark_all_processed (k # ks) t =
     mark_all_processed ks
       (if \<not> VC_Processed (L_entries (ps_semis t) ! k) then set_processed k t else t)"

text \<open>The loop of the bounded branch over the soft prefix, by position.  The rule adds
  to the full list only, so the semi \<open>*cur\<close> it was called on is unchanged after the call
  (the assertion \<open>v == *cur\<close>).\<close>

fun or_soft_prefix ::
  "('c::{finite,linorder} \<Rightarrow> 'c bitset_t) \<Rightarrow> int \<Rightarrow> nat list \<Rightarrow> 'c semis_state \<Rightarrow>
   (assertion + 'c semis_state) option" where
  "or_soft_prefix captured_sets maxOrs [] t = Some (Inr t)"
| "or_soft_prefix captured_sets maxOrs (k # ks) t =
     (if \<not> VC_Processed (L_entries (ps_semis t) ! k) then
        (let st1 = (ps_stats t)\<lparr>doOrs := doOrs (ps_stats t) + 1\<rparr>
         in case OrRule captured_sets (L_entries (ps_semis t) ! k) (ps_semis t) (ps_fulls t)
                   (ps_added t) maxOrs (ps_log t) st1 of
              None \<Rightarrow> None
            | Some (Inl a) \<Rightarrow> Some (Inl a)
            | Some (Inr (n, fulls1, added1, log1, st2)) \<Rightarrow>
                or_soft_prefix captured_sets maxOrs ks
                  (set_processed k
                    (t\<lparr>ps_fulls := fulls1, ps_added := added1, ps_log := log1,
                       ps_stats := (if 0 < n then st2\<lparr>goodOrs := goodOrs st2 + 1\<rparr> else st2)\<rparr>)))
      else or_soft_prefix captured_sets maxOrs ks t)"

definition union_all :: "'c::{finite,linorder} env \<Rightarrow> 'c bitset_t \<Rightarrow> 'c \<Rightarrow> 'c \<Rightarrow>
   'c semis_state \<Rightarrow> 'c semis_state" where
  "union_all e capturedSet xc yc t =
     (if L_Empty (ps_fulls t) then
        (let carrier = (if use_greedy_union (m_param e) then GetGreedyUnion (ps_semis t)
                        else GetUnion (ps_semis t));
             v = VC_full xc yc (carrier \<union> capturedSet) VC_RULE_ALL
         in case L_Add (ps_fulls t) v (ps_log t) of
              (result, fulls1, log1) \<Rightarrow>
                t\<lparr>ps_fulls := fulls1, ps_log := log1, ps_added := ps_added t @ [v]\<rparr>)
      else t)"

definition finish_semis :: "'c::{finite,linorder} env \<Rightarrow> 'c \<Rightarrow> 'c \<Rightarrow> 'c builder \<Rightarrow>
   'c semis_state \<Rightarrow> 'c builder" where
  "finish_semis e xc yc s t =
     fold (PushFull e) (ps_added t)
       (s\<lparr>m_con := SetList (SetList (m_con s) SEMI xc yc (ps_semis t)) FULL xc yc (ps_fulls t),
          m_log := ps_log t, m_statistics := ps_stats t\<rparr>)"

definition ProcessSemis ::
  "'c::{finite,linorder} env \<Rightarrow> 'c \<Rightarrow> 'c \<Rightarrow> 'c builder \<Rightarrow> (assertion + 'c builder) option" where
  "ProcessSemis e xc yc s =
     (let semis = GetList (m_con s) SEMI xc yc;
          fulls = GetList (m_con s) FULL xc yc;
          capturedSet = m_capturedSet s xc \<union> m_capturedSet s yc;
          uncapturedSet = - capturedSet
      in if HardIntersection semis \<inter> uncapturedSet \<noteq> {} then Some (Inr s)
         else if 16 \<le> max_ors (m_param e) then
           (let st1 = (m_statistics s)\<lparr>doOrs := doOrs (m_statistics s) + 1\<rparr>
            in case DoOr (m_capturedSet s) semis fulls [] (m_log s) st1 of
                 Inl a \<Rightarrow> Some (Inl a)
               | Inr (good, fulls1, added1, log1, st2) \<Rightarrow>
                   Some (Inr (finish_semis e xc yc s
                     (mark_all_processed [0 ..< length (L_entries semis)]
                        \<lparr>ps_semis = semis, ps_fulls = fulls1, ps_added = added1, ps_log = log1,
                         ps_stats = (if good then st2\<lparr>goodOrs := goodOrs st2 + 1\<rparr> else st2)\<rparr>))))
         else
           (case or_soft_prefix (m_capturedSet s) (max_ors (m_param e))
                   [0 ..< length (soft_entries semis)]
                   \<lparr>ps_semis = semis, ps_fulls = fulls, ps_added = [], ps_log = m_log s,
                    ps_stats = m_statistics s\<rparr> of
              None \<Rightarrow> None
            | Some (Inl a) \<Rightarrow> Some (Inl a)
            | Some (Inr t) \<Rightarrow>
                Some (Inr (finish_semis e xc yc s (union_all e capturedSet xc yc t)))))"

section \<open>The fixed-point search\<close>

datatype 'a iteration = Break | Continue 'a

text \<open>The body of the loop of \<open>DoSearch\<close> up to the test for a winning connection:
  \<open>Break\<close> when both queues are empty, else the state after the pop and the processing.\<close>

definition DoSearch_body ::
  "'c::{finite,linorder} env \<Rightarrow> 'c builder \<Rightarrow> (assertion + 'c builder) option iteration" where
  "DoSearch_body e s =
     (if FullVCQueue_Empty (m_fulls_queue s) then
        (if SemiEndsQueue_Empty (m_semis_queue s) then Break
         else
           case SemiEndsQueue_Front (m_semis_queue s) of
             None \<Rightarrow> Continue None
           | Some pair \<Rightarrow>
               Continue (ProcessSemis e (fst pair) (snd pair)
                           (s\<lparr>m_semis_queue := SemiEndsQueue_Pop (m_semis_queue s)\<rparr>)))
      else
        case FullVCQueue_Front (m_fulls_queue s) of
          None \<Rightarrow> Continue None
        | Some vc \<Rightarrow>
            Continue (Some (ProcessFulls e vc
                              (s\<lparr>m_fulls_queue := FullVCQueue_Pop (m_fulls_queue s)\<rparr>))))"

definition winning :: "'c::{finite,linorder} env \<Rightarrow> 'c builder \<Rightarrow> bool" where
  "winning e s =
     (abort_on_winning_connection (m_param e)
      \<and> VCSet_Exists (m_con s) (colorEdge1 e) (colorEdge2 e) FULL)"

text \<open>The loop: its result is the flag \<open>winning_connection\<close> and the final state; \<open>None\<close>
  is a loop that never ends.\<close>

partial_function (option) DoSearch_loop ::
  "'c::{finite,linorder} env \<Rightarrow> 'c builder \<Rightarrow> (assertion + bool \<times> 'c builder) option" where
  "DoSearch_loop e s =
     (case DoSearch_body e s of
        Break \<Rightarrow> Some (Inr (False, s))
      | Continue None \<Rightarrow> None
      | Continue (Some (Inl a)) \<Rightarrow> Some (Inl a)
      | Continue (Some (Inr s1)) \<Rightarrow>
          if winning e s1 then Some (Inr (True, s1)) else DoSearch_loop e s1)"

definition DoSearch ::
  "'c::{finite,linorder} env \<Rightarrow> 'c builder \<Rightarrow> (assertion + 'c builder) option" where
  "DoSearch e s =
     (case DoSearch_loop e s of
        None \<Rightarrow> None
      | Some (Inl a) \<Rightarrow> Some (Inl a)
      | Some (Inr (winning_connection, s1)) \<Rightarrow>
          if winning_connection
             \<or> (FullVCQueue_Empty (m_fulls_queue s1) \<and> SemiEndsQueue_Empty (m_semis_queue s1))
          then Some (Inr s1) else Some (Inl Assert_search_end))"

section \<open>Captured sets and base connections\<close>

text \<open>\<open>MatchOnCell\<close> returns the hits on a cell, each with its list \<open>Moves2\<close>; the loop
  over the hits sets the cells of the first hit once per hit.\<close>

definition captured_of_hits :: "'c list list \<Rightarrow> 'c bitset_t" where
  "captured_of_hits hits = fold (\<lambda>h acc. acc \<union> set (hits ! 0)) hits {}"

definition ComputeCapturedSets :: "'c env \<Rightarrow> 'c builder \<Rightarrow> 'c builder" where
  "ComputeCapturedSets e s =
     s\<lparr>m_capturedSet :=
         fold (\<lambda>p cap. cap(p := (if GetColor (m_groups e) p = EMPTY
                                   then captured_of_hits (MatchOnCell e p) else {})))
              (EdgesAndInterior (m_groups e)) (m_capturedSet s)\<rparr>"

definition add_counted ::
  "'c::{finite,linorder} env \<Rightarrow> bool \<Rightarrow> 'c VC \<Rightarrow> 'c builder \<Rightarrow> 'c builder" where
  "add_counted e is_pattern vc s =
     (let st = m_statistics s;
          st1 = (if is_pattern then st\<lparr>pattern_attempts := pattern_attempts st + 1\<rparr>
                 else st\<lparr>base_attempts := base_attempts st + 1\<rparr>)
      in case VCSet_Add (m_con s) vc (m_log s) of
           (result, con1, log1) \<Rightarrow>
             if result \<noteq> ADD_FAILED then
               PushFull e vc
                 (s\<lparr>m_con := con1, m_log := log1,
                    m_statistics :=
                      (if is_pattern then st1\<lparr>pattern_successes := pattern_successes st1 + 1\<rparr>
                       else st1\<lparr>base_successes := base_successes st1 + 1\<rparr>)\<rparr>)
             else s\<lparr>m_con := con1, m_log := log1, m_statistics := st1\<rparr>)"

definition AddBaseVCs :: "'c::{finite,linorder} env \<Rightarrow> 'c builder \<Rightarrow> 'c builder" where
  "AddBaseVCs e s =
     fold (\<lambda>x s1.
             fold (\<lambda>y. add_counted e False (VC_base (G_Captain x) y))
                  (sorted_list_of_set (G_Nbs x \<inter> GetEmpty (m_groups e))) s1)
          (GroupIterator (m_groups e) (ColorOrEmpty (m_color e))) s"

definition AddPatternVCs :: "'c::{finite,linorder} env \<Rightarrow> 'c builder \<Rightarrow> 'c builder" where
  "AddPatternVCs e s =
     fold (\<lambda>pat s1.
             if \<not> use_non_edge_patterns (m_param e) \<and> \<not> isEdge e (Endpoint0 pat)
                \<and> \<not> isEdge e (Endpoint1 pat) then s1
             else if Matches pat then
               add_counted e True
                 (VC_full (Endpoint0 pat) (Endpoint1 pat)
                    (NotOpponent pat - GetColorSet (m_groups e) (m_color e)
                       - {Endpoint0 pat} - {Endpoint1 pat}) VC_RULE_BASE) s1
             else s1)
          (GetPatterns e) s"

section \<open>The incremental update\<close>

text \<open>The pairs of a doubly nested loop whose inner loop runs from the start of the same
  sequence up to the element of the outer loop.\<close>

definition pairs_before :: "'a list \<Rightarrow> ('a \<times> 'a) list" where
  "pairs_before xs = concat (map (\<lambda>i. map (\<lambda>y. (xs ! i, y)) (take i xs)) [0 ..< length xs])"

definition kill_pair :: "'c::{finite,linorder} bitset_t \<Rightarrow> 'c \<Rightarrow> 'c \<Rightarrow> 'c builder \<Rightarrow> 'c builder" where
  "kill_pair bs xc yc s =
     (case L_RemoveAllContaining (GetList (m_con s) FULL xc yc) bs (m_log s) of
        (removed0, fulls, log1) \<Rightarrow>
          let con1 = SetList (m_con s) FULL xc yc fulls
          in case L_RemoveAllContaining (GetList con1 SEMI xc yc) bs log1 of
               (removed1, semis, log2) \<Rightarrow>
                 s\<lparr>m_con := SetList con1 SEMI xc yc semis, m_log := log2,
                   m_statistics := (m_statistics s)
                     \<lparr>killed0 := killed0 (m_statistics s) + length removed0,
                      killed1 := killed1 (m_statistics s) + length removed1\<rparr>\<rparr>)"

definition RemoveAllContaining ::
  "'c::{finite,linorder} env \<Rightarrow> 'c Groups \<Rightarrow> 'c bitset_t \<Rightarrow> 'c builder \<Rightarrow> 'c builder" where
  "RemoveAllContaining e oldGroups bs s =
     (let other = other_color (m_color e);
          caps = filter (\<lambda>xc. GetColor (m_groups e) xc \<noteq> other)
                   (map G_Captain (GroupIterator oldGroups (NotColor other)))
      in fold (\<lambda>(xc, yc). kill_pair bs xc yc) (pairs_before caps) s)"

definition key_in :: "'c bitset_t \<Rightarrow> 'c VC \<Rightarrow> bool" where
  "key_in added v = (case VC_Key v of None \<Rightarrow> False | Some k \<Rightarrow> k \<in> added)"

text \<open>The three loops of the inner \<open>MergeAndShrink\<close> over the removed connections.\<close>

definition shrink_full ::
  "'c::{finite,linorder} env \<Rightarrow> 'c bitset_t \<Rightarrow> 'c \<Rightarrow> 'c \<Rightarrow> 'c VC \<Rightarrow> 'c builder \<Rightarrow> 'c builder" where
  "shrink_full e added xout yout it s =
     (let v = ShrinkFull it added xout yout
      in case L_Add (GetList (m_con s) FULL xout yout) v (m_log s) of
           (result, fullsOut, log1) \<Rightarrow>
             let s1 = s\<lparr>m_con := SetList (m_con s) FULL xout yout fullsOut, m_log := log1\<rparr>
             in if result \<noteq> ADD_FAILED
                then PushFull e v
                       (s1\<lparr>m_statistics := (m_statistics s1)
                             \<lparr>shrunk0 := shrunk0 (m_statistics s1) + 1\<rparr>\<rparr>)
                else s1)"

definition shrink_semi ::
  "'c::{finite,linorder} bitset_t \<Rightarrow> 'c \<Rightarrow> 'c \<Rightarrow> 'c VC \<Rightarrow> bool \<times> 'c builder \<Rightarrow> bool \<times> 'c builder" where
  "shrink_semi added xout yout it ws =
     (case ws of (wasShrink, s) \<Rightarrow>
        if \<not> key_in added it then
          (let v = ShrinkSemi it added xout yout
           in case L_Add (GetList (m_con s) SEMI xout yout) v (m_log s) of
                (result, semisOut, log1) \<Rightarrow>
                  let s1 = s\<lparr>m_con := SetList (m_con s) SEMI xout yout semisOut, m_log := log1\<rparr>
                  in if result \<noteq> ADD_FAILED
                     then (True, s1\<lparr>m_statistics := (m_statistics s1)
                                     \<lparr>shrunk1 := shrunk1 (m_statistics s1) + 1\<rparr>\<rparr>)
                     else (wasShrink, s1))
        else (wasShrink, s))"

definition upgrade_semi ::
  "'c::{finite,linorder} env \<Rightarrow> 'c bitset_t \<Rightarrow> 'c \<Rightarrow> 'c \<Rightarrow> 'c VC \<Rightarrow> 'c builder \<Rightarrow>
   assertion + 'c builder" where
  "upgrade_semi e added xout yout it s =
     (if key_in added it then
        (case UpgradeSemi it added xout yout of
           Inl a \<Rightarrow> Inl a
         | Inr v \<Rightarrow>
             (case L_Add (GetList (m_con s) FULL xout yout) v (m_log s) of
                (result, fullsOut, log1) \<Rightarrow>
                  let con1 = SetList (m_con s) FULL xout yout fullsOut
                  in if result \<noteq> ADD_FAILED then
                       (case L_RemoveSuperSetsOf (GetList con1 SEMI xout yout) (VC_Carrier v) log1 of
                          (semisOut, log2) \<Rightarrow>
                            Inr (PushFull e v
                                   (s\<lparr>m_con := SetList con1 SEMI xout yout semisOut,
                                      m_log := log2,
                                      m_statistics := (m_statistics s)
                                        \<lparr>upgraded := upgraded (m_statistics s) + 1\<rparr>\<rparr>)))
                     else Inr (s\<lparr>m_con := con1, m_log := log1\<rparr>)))
      else Inr s)"

fun upgrade_semis ::
  "'c::{finite,linorder} env \<Rightarrow> 'c bitset_t \<Rightarrow> 'c \<Rightarrow> 'c \<Rightarrow> 'c VC list \<Rightarrow> 'c builder \<Rightarrow>
   assertion + 'c builder" where
  "upgrade_semis e added xout yout [] s = Inr s"
| "upgrade_semis e added xout yout (it # rest) s =
     (case upgrade_semi e added xout yout it s of
        Inl a \<Rightarrow> Inl a
      | Inr s1 \<Rightarrow> upgrade_semis e added xout yout rest s1)"

text \<open>The four list pointers of the inner \<open>MergeAndShrink\<close> are the lists of the keys of
  \<open>(xin, yin)\<close> and \<open>(xout, yout)\<close>: the in and out lists are one list exactly when the keys
  are equal, for the Fulls as for the Semis.  \<open>MergeAndShrink_shrink\<close> is the function from
  its first list operation up to the push on the semis queue: it merges and shrinks the Fulls,
  then the Semis, and hands on the vector \<open>removed\<close> of the Semis taken out of the in list
  and the state in which the last loop, the upgrades, starts.\<close>

definition MergeAndShrink_shrink ::
  "'c::{finite,linorder} env \<Rightarrow> 'c bitset_t \<Rightarrow> 'c \<Rightarrow> 'c \<Rightarrow> 'c \<Rightarrow> 'c \<Rightarrow> 'c builder \<Rightarrow>
   'c VC list \<times> 'c builder" where
  "MergeAndShrink_shrink e added xin yin xout yout s =
     (let doingMerge = (pair_key xin yin \<noteq> pair_key xout yout) in
      case L_RemoveAllContaining (GetList (m_con s) FULL xin yin) added (m_log s) of
        (removed0, fullsIn, log1) \<Rightarrow>
          let s1 = s\<lparr>m_con := SetList (m_con s) FULL xin yin fullsIn, m_log := log1\<rparr>;
              s2 = (if doingMerge then
                      (case L_Append (GetList (m_con s1) FULL xout yout)
                              (L_entries fullsIn) (m_log s1) of
                         (fullsOut, log2) \<Rightarrow>
                           fold (PushFull e) (L_entries fullsIn)
                             (s1\<lparr>m_con := SetList (m_con s1) FULL xout yout fullsOut,
                                 m_log := log2\<rparr>))
                    else s1);
              s3 = fold (shrink_full e added xout yout) removed0 s2
          in case L_RemoveAllContaining (GetList (m_con s3) SEMI xin yin) added (m_log s3) of
               (removed, semisIn, log3) \<Rightarrow>
                 let s4 = s3\<lparr>m_con := SetList (m_con s3) SEMI xin yin semisIn, m_log := log3\<rparr>;
                     s5 = (if doingMerge then
                             (case L_Append (GetList (m_con s4) SEMI xout yout)
                                     (L_entries semisIn) (m_log s4) of
                                (semisOut, log4) \<Rightarrow>
                                  s4\<lparr>m_con := SetList (m_con s4) SEMI xout yout semisOut,
                                     m_log := log4\<rparr>)
                           else s4)
                 in case fold (shrink_semi added xout yout) removed (False, s5) of
                      (wasShrink, s6) \<Rightarrow>
                        let semisOut = GetList (m_con s6) SEMI xout yout;
                            s7 = (if doingMerge \<or> wasShrink
                                  then s6\<lparr>m_semis_queue :=
                                            SemiEndsQueue_Push (L_X semisOut, L_Y semisOut)
                                              (m_semis_queue s6)\<rparr>
                                  else s6)
                        in (removed, s7))"

definition MergeAndShrink_pair ::
  "'c::{finite,linorder} env \<Rightarrow> 'c bitset_t \<Rightarrow> 'c \<Rightarrow> 'c \<Rightarrow> 'c \<Rightarrow> 'c \<Rightarrow> 'c builder \<Rightarrow>
   assertion + 'c builder" where
  "MergeAndShrink_pair e added xin yin xout yout s =
     (if xin = yin then Inl Assert_xin_neq_yin
      else if xout = yout then Inl Assert_xout_neq_yout
      else
        case MergeAndShrink_shrink e added xin yin xout yout s of
          (removed, s7) \<Rightarrow> upgrade_semis e added xout yout removed s7)"

fun MergeAndShrink_pairs ::
  "'c::{finite,linorder} env \<Rightarrow> 'c bitset_t \<Rightarrow> 'c bitset_t \<Rightarrow> ('c \<times> 'c) list \<Rightarrow> 'c builder \<Rightarrow>
   assertion + 'c builder" where
  "MergeAndShrink_pairs e affected added [] s = Inr s"
| "MergeAndShrink_pairs e affected added ((x, y) # rest) s =
     (if \<not> IsCaptain (m_groups e) y \<and> y \<notin> affected
      then MergeAndShrink_pairs e affected added rest s
      else
        let cx = CaptainOf (m_groups e) x;
            cy = CaptainOf (m_groups e) y
        in if cx \<noteq> cy then
             (case MergeAndShrink_pair e added x y cx cy s of
                Inl a \<Rightarrow> Inl a
              | Inr s1 \<Rightarrow> MergeAndShrink_pairs e affected added rest s1)
           else MergeAndShrink_pairs e affected added rest s)"

definition MergeAndShrink ::
  "'c::{finite,linorder} env \<Rightarrow> 'c bitset_t \<Rightarrow> 'c bitset_t \<Rightarrow> 'c builder \<Rightarrow>
   assertion + 'c builder" where
  "MergeAndShrink e affected added s =
     (let stones = Stones (m_groups e) (NotColor (other_color (m_color e)))
      in MergeAndShrink_pairs e affected added
           (filter (\<lambda>(x, y). IsCaptain (m_groups e) x \<or> x \<in> affected) (pairs_before stones)) s)"

definition affected_of ::
  "'c::{finite,linorder} env \<Rightarrow> 'c Groups \<Rightarrow> 'c bitset_t \<Rightarrow> 'c bitset_t" where
  "affected_of e oldGroups added_own =
     fold (\<lambda>x aff.
             fold (\<lambda>y aff1. if GetColor oldGroups y = m_color e
                            then insert (CaptainOf oldGroups y) aff1 else aff1)
                  (Board_Nbs (m_groups e) x) aff)
          (sorted_list_of_set added_own) added_own"

definition Merge ::
  "'c::{finite,linorder} env \<Rightarrow> 'c Groups \<Rightarrow> (HexColor \<Rightarrow> 'c bitset_t) \<Rightarrow> 'c builder \<Rightarrow>
   assertion + 'c builder" where
  "Merge e oldGroups added s =
     MergeAndShrink e (affected_of e oldGroups (added (m_color e))) (added (m_color e))
       (RemoveAllContaining e oldGroups (added (other_color (m_color e))) s)"

section \<open>The two builds\<close>

definition Build_static ::
  "'c::{finite,linorder} env \<Rightarrow> 'c builder \<Rightarrow> (assertion + 'c builder) option" where
  "Build_static e s =
     (let s1 = s\<lparr>m_log := None, m_con := VCSet_Clear (m_con s),
                 m_semis_queue := SemiEndsQueue_Clear, m_fulls_queue := FullVCQueue_Clear,
                 m_nbs := (\<lambda>p. {})\<rparr>;
          s2 = AddBaseVCs e (ComputeCapturedSets e s1);
          s3 = (if use_patterns (m_param e) then AddPatternVCs e s2 else s2)
      in DoSearch e s3)"

definition rebuild_nbs :: "'c::{finite,linorder} env \<Rightarrow> 'c builder \<Rightarrow> 'c builder" where
  "rebuild_nbs e s =
     (let other = other_color (m_color e);
          caps = filter (\<lambda>xc. GetColor (m_groups e) xc \<noteq> other)
                   (map G_Captain (GroupIterator (m_groups e) (NotColor other)))
      in fold (\<lambda>(xc, yc) s1.
                 if VCSet_Exists (m_con s1) xc yc FULL
                 then s1\<lparr>m_nbs := (m_nbs s1)(xc := insert yc (m_nbs s1 xc))\<rparr> else s1)
              (pairs_before caps) (s\<lparr>m_nbs := (\<lambda>p. {})\<rparr>))"

text \<open>The incremental build; \<open>e\<close> holds the new groups, \<open>log\<close> is the caller's change log.\<close>

definition Build_incremental ::
  "'c::{finite,linorder} env \<Rightarrow> 'c Groups \<Rightarrow> (HexColor \<Rightarrow> 'c bitset_t) \<Rightarrow> 'c ChangeLog \<Rightarrow>
   'c builder \<Rightarrow> (assertion + 'c builder) option" where
  "Build_incremental e oldGroups added lg s =
     (if added BLACK \<inter> added WHITE \<noteq> {} then Some (Inl Assert_added_disjoint)
      else
        let s1 = s\<lparr>m_log := lg, m_semis_queue := SemiEndsQueue_Clear,
                   m_fulls_queue := FullVCQueue_Clear\<rparr>
        in case Merge e oldGroups added (ComputeCapturedSets e s1) of
             Inl a \<Rightarrow> Some (Inl a)
           | Inr s2 \<Rightarrow>
               DoSearch e
                 (rebuild_nbs e (if use_patterns (m_param e) then AddPatternVCs e s2 else s2)))"

section \<open>Predicates of the properties and example positions\<close>

definition same_heads :: "'c builder \<Rightarrow> 'c builder \<Rightarrow> bool" where
  "same_heads s s' =
     (fq_head (m_fulls_queue s') = fq_head (m_fulls_queue s)
      \<and> sq_head (m_semis_queue s') = sq_head (m_semis_queue s))"

definition ex_groups :: "8 word Groups" where
  "ex_groups = \<lparr>GetColor = (\<lambda>p. EMPTY), CaptainOf = (\<lambda>p. p), AllGroups = [],
                 EdgesAndInterior = [2, 3, 4, 5, 6, 7], Board_Nbs = (\<lambda>p. [])\<rparr>"

definition ex_env :: "8 word env" where
  "ex_env = \<lparr>m_param = VCBuilderParam_default, m_color = BLACK, m_groups = ex_groups,
             isEdge = (\<lambda>p. False), colorEdge1 = 8, colorEdge2 = 9,
             MatchOnCell = (\<lambda>p. []), GetPatterns = []\<rparr>"

definition ex_stats :: VCBuilderStatistics where
  "ex_stats = \<lparr>base_attempts = 0, base_successes = 0, pattern_attempts = 0,
     pattern_successes = 0, and_full_attempts = 0, and_full_successes = 0,
     and_semi_attempts = 0, and_semi_successes = 0, or_attempts = 0, or_successes = 0,
     doOrs = 0, goodOrs = 0, shrunk0 = 0, shrunk1 = 0, upgraded = 0, killed0 = 0, killed1 = 0\<rparr>"

definition ex_con :: "8 word VCSet" where
  "ex_con = (\<lambda>t k. \<lparr>L_X = fst k, L_Y = snd k, L_Softlimit = 10, L_entries = []\<rparr>)"

definition ex_builder :: "8 word builder" where
  "ex_builder = \<lparr>m_con = ex_con, m_log = None, m_statistics = ex_stats,
     m_fulls_queue = FullVCQueue_Clear, m_semis_queue = SemiEndsQueue_Clear,
     m_nbs = (\<lambda>p. {}), m_capturedSet = (\<lambda>p. {})\<rparr>"

definition ex_semi :: "8 word VC" where
  "ex_semi = VC_semi 2 3 5 {5} VC_RULE_AND"

text \<open>One unprocessed Semi between the cells 2 and 3, its pair waiting in the semis queue.\<close>

definition ex_one_semi :: "8 word builder" where
  "ex_one_semi = ex_builder\<lparr>
     m_con := SetList ex_con SEMI 2 3
                \<lparr>L_X = 2, L_Y = 3, L_Softlimit = 10, L_entries = [ex_semi]\<rparr>,
     m_semis_queue := SemiEndsQueue_Push (2, 3) SemiEndsQueue_Clear\<rparr>"

definition all_processed :: "'c VCSet \<Rightarrow> bool" where
  "all_processed con = (\<forall>t k. list_all VC_Processed (L_entries (con t k)))"

definition search_post :: "'c env \<Rightarrow> assertion + bool \<times> 'c builder \<Rightarrow> bool" where
  "search_post e r =
     (case r of
        Inl a \<Rightarrow> True
      | Inr (w, s') \<Rightarrow>
          if w then abort_on_winning_connection (m_param e)
          else FullVCQueue_Empty (m_fulls_queue s') \<and> SemiEndsQueue_Empty (m_semis_queue s'))"

definition ex_one_full :: "8 word builder" where
  "ex_one_full = ex_builder\<lparr>
     m_fulls_queue := FullVCQueue_Push (VC_base 2 3) FullVCQueue_Clear,
     m_semis_queue := SemiEndsQueue_Push (2, 3) SemiEndsQueue_Clear\<rparr>"

text \<open>Two Fulls that meet in the cells 5 and 6, and two with disjoint carriers.\<close>

definition ex_a :: "8 word VC" where
  "ex_a = (VC_full 4 2 {5, 6} VC_RULE_BASE)\<lparr>VC_Processed := True\<rparr>"

definition ex_b :: "8 word VC" where
  "ex_b = VC_full 2 3 {5, 6, 7} VC_RULE_BASE"

definition ex_a0 :: "8 word VC" where
  "ex_a0 = (VC_full 4 2 {5} VC_RULE_BASE)\<lparr>VC_Processed := True\<rparr>"

definition ex_b0 :: "8 word VC" where
  "ex_b0 = VC_full 2 3 {7} VC_RULE_BASE"

text \<open>A position with a black stone on the cell 2 and a captured-set pattern that hits
  on every cell.\<close>

definition ex_env_stone :: "8 word env" where
  "ex_env_stone = ex_env\<lparr>
     m_groups := ex_groups\<lparr>GetColor := (\<lambda>p. if p = 2 then BLACK else EMPTY)\<rparr>,
     MatchOnCell := (\<lambda>p. [[7]])\<rparr>"

text \<open>A Semi between the cells 2 and 3 with key 5, to be upgraded when 5 is played,
  and a state whose Semi list between 2 and 3 holds it and a Semi over the cells 6 and 7.\<close>

definition ex_semi56 :: "8 word VC" where
  "ex_semi56 = VC_semi 2 3 5 {5, 6} VC_RULE_AND"

definition ex_merge :: "8 word builder" where
  "ex_merge = ex_builder\<lparr>
     m_con := SetList ex_con SEMI 2 3
                \<lparr>L_X = 2, L_Y = 3, L_Softlimit = 10,
                 L_entries = [ex_semi56, VC_semi 2 3 7 {6, 7} VC_RULE_AND]\<rparr>\<rparr>"

text \<open>The cell 2 captures the cell 5: the Semi list between 2 and 3 has its intersection
  inside the captured sets, without a Full and beside a Full.\<close>

definition ex_caps :: "8 word \<Rightarrow> 8 word set" where
  "ex_caps = (\<lambda>p. if p = 2 then {5} else {})"

definition ex_semis_only :: "8 word builder" where
  "ex_semis_only = ex_builder\<lparr>
     m_con := SetList ex_con SEMI 2 3
                \<lparr>L_X = 2, L_Y = 3, L_Softlimit = 10, L_entries = [ex_semi]\<rparr>,
     m_capturedSet := ex_caps\<rparr>"

definition ex_semis_and_full :: "8 word builder" where
  "ex_semis_and_full = ex_semis_only\<lparr>
     m_con := SetList (m_con ex_semis_only) FULL 2 3
                \<lparr>L_X = 2, L_Y = 3, L_Softlimit = 10,
                 L_entries = [VC_full 2 3 {6} VC_RULE_BASE]\<rparr>\<rparr>"

text \<open>A result that is not the failure of the assertion on \<open>added\<close>.\<close>

definition nd :: "assertion + 'a \<Rightarrow> bool" where
  "nd r = (r \<noteq> Inl Assert_added_disjoint)"

text \<open>What a run of the enhanced OR never undoes: \<open>added\<close> does not shrink and a Full
  list that is not empty stays so.\<close>

definition grows :: "'c VCOrCombiner \<Rightarrow> 'c VCOrCombiner \<Rightarrow> bool" where
  "grows c c' =
     (length (oc_added c) \<le> length (oc_added c')
      \<and> (L_entries (oc_full_list c) \<noteq> [] \<longrightarrow> L_entries (oc_full_list c') \<noteq> []))"

definition search_grows :: "nat \<Rightarrow> 'c VCOrCombiner \<Rightarrow> assertion + nat \<times> 'c VCOrCombiner \<Rightarrow> bool" where
  "search_grows n0 c r = (case r of Inl a \<Rightarrow> True | Inr (n, c') \<Rightarrow> n0 \<le> n \<and> grows c c')"

text \<open>Two unprocessed Semis between the cells 2 and 3 with disjoint carriers, a Full list
  with one Full that meets both, and an empty Full list.\<close>

definition ex_two_semis :: "8 word VCList" where
  "ex_two_semis = \<lparr>L_X = 2, L_Y = 3, L_Softlimit = 10,
     L_entries = [VC_semi 2 3 4 {4, 5} VC_RULE_AND, VC_semi 2 3 6 {6, 7} VC_RULE_AND]\<rparr>"

definition ex_full_46 :: "8 word VCList" where
  "ex_full_46 = \<lparr>L_X = 2, L_Y = 3, L_Softlimit = 10,
     L_entries = [VC_full 2 3 {4, 6} VC_RULE_AND]\<rparr>"

definition ex_no_full :: "8 word VCList" where
  "ex_no_full = \<lparr>L_X = 2, L_Y = 3, L_Softlimit = 10, L_entries = []\<rparr>"

text \<open>Captured sets of the cells 2 and 3 that share the cell 11, and two Semis through
  it.\<close>

definition ex_shared_caps :: "8 word \<Rightarrow> 8 word set" where
  "ex_shared_caps = (\<lambda>p. if p = 2 then {4, 11} else if p = 3 then {11} else {})"

definition ex_semis_11 :: "8 word VCList" where
  "ex_semis_11 = \<lparr>L_X = 2, L_Y = 3, L_Softlimit = 10,
     L_entries = [VC_semi 2 3 5 {11, 5} VC_RULE_AND, VC_semi 2 3 6 {11, 6} VC_RULE_AND]\<rparr>"

text \<open>The enumeration of the bounded OR rule ends: the invariant of its cursors, and the
  vector of what is left at each depth, which every step lowers in the lexicographic order.
  \<open>or_i\<close> is the local \<open>i\<close> of the loop after the test on the tail intersection.\<close>

definition or_inv :: "nat \<Rightarrow> nat \<Rightarrow> 'c or_state \<Rightarrow> bool" where
  "or_inv N D t =
     (1 \<le> os_d t \<and> os_d t \<le> D \<and> os_index t (os_d t) \<le> N
      \<and> (\<forall>k. 1 \<le> k \<and> k < os_d t \<longrightarrow> os_index t k < N))"

definition or_lvl :: "nat \<Rightarrow> 'c or_state \<Rightarrow> nat \<Rightarrow> nat" where
  "or_lvl N t k = (if k \<le> os_d t then N + 1 - os_index t k else N + 2)"

definition or_vec :: "nat \<Rightarrow> nat \<Rightarrow> 'c or_state \<Rightarrow> nat list" where
  "or_vec N D t = map (\<lambda>j. or_lvl N t (j + 1)) [0 ..< D]"

definition or_i :: "'c VC list \<Rightarrow> 'c bitset_t list \<Rightarrow> 'c bitset_t \<Rightarrow> 'c or_state \<Rightarrow> nat" where
  "or_i m_semi m_tail cap t =
     (if os_index t (os_d t) < length m_semi
         \<and> os_ands t (os_d t - 1) \<inter> (m_tail ! os_index t (os_d t)) \<inter> (- cap) \<noteq> {}
      then length m_semi else os_index t (os_d t))"

text \<open>The captains as the builder keeps them: a captain is its own captain, and the
  neighbour sets hold captains only, so that the assertion of \<open>AndClosure\<close> on a neighbour
  holds.\<close>

definition captains_ok :: "'c env \<Rightarrow> 'c builder \<Rightarrow> bool" where
  "captains_ok e s =
     ((\<forall>p. CaptainOf (m_groups e) (CaptainOf (m_groups e) p) = CaptainOf (m_groups e) p)
      \<and> (\<forall>p. \<forall>z \<in> m_nbs s p. CaptainOf (m_groups e) z = z))"

text \<open>What every add of the AND rule keeps: the captured sets, the captains, and for every
  pair and every set of cells a connection of the pair's lists with its carrier inside the
  set (a Full; or a Full or a Semi).\<close>

definition and_keeps :: "'c::{finite,linorder} env \<Rightarrow> 'c builder \<Rightarrow> 'c builder \<Rightarrow> bool" where
  "and_keeps e s s' =
     (m_capturedSet s' = m_capturedSet s
      \<and> (captains_ok e s \<longrightarrow> captains_ok e s')
      \<and> (\<forall>x y C. IsSupersetOfAny (GetList (m_con s) FULL x y) C
                   \<longrightarrow> IsSupersetOfAny (GetList (m_con s') FULL x y) C)
      \<and> (\<forall>x y C. IsSupersetOfAny (GetList (m_con s) FULL x y) C
                    \<or> IsSupersetOfAny (GetList (m_con s) SEMI x y) C
                   \<longrightarrow> IsSupersetOfAny (GetList (m_con s') FULL x y) C
                    \<or> IsSupersetOfAny (GetList (m_con s') SEMI x y) C))"

text \<open>A state for the closure of the Full between the cells 2 and 3: the cell 4 is a
  neighbour of 2, with a processed Full between them.\<close>

definition ex_and :: "8 word builder" where
  "ex_and = ex_builder\<lparr>
     m_con := SetList ex_con FULL 4 2
                \<lparr>L_X = 2, L_Y = 4, L_Softlimit = 10, L_entries = [ex_a0]\<rparr>,
     m_nbs := (\<lambda>p. if p = 2 then {4} else {})\<rparr>"

section \<open>The semis queue does not keep its pairs unique\<close>

lemma Push_distinct_appends:
  "a < b \<Longrightarrow> \<not> sq_seen q a b \<Longrightarrow>
   sq_array (SemiEndsQueue_Push (a, b) q) = sq_array q @ [(a, b)] \<and>
   \<not> sq_seen (SemiEndsQueue_Push (a, b) q) a b"
  by (auto simp: SemiEndsQueue_Push_def Let_def min_def max_def)

text \<open>
  C1.  The claim: a pair is in the semis queue at most once between its push and its pop;
  a second \<open>Push\<close> of a pair normalising to one still waiting inserts nothing.  The code
  marks \<open>m_seen[a][a]\<close> where it tests \<open>m_seen[a][b]\<close>: on a cleared queue, pushing the
  pair of cells 2 and 3 twice (in either order) leaves it waiting twice.
\<close>

theorem SemiEndsQueue_Push_twice_inserts_twice:
  "sq_pending (SemiEndsQueue_Push (3, 2) (SemiEndsQueue_Push (2, 3 :: 8 word) SemiEndsQueue_Clear))
     = [(2, 3), (2, 3)]"
  by (simp add: SemiEndsQueue_Push_def SemiEndsQueue_Clear_def sq_pending_def Let_def)

section \<open>Processing moves no queue cursor\<close>

lemma same_heads_refl: "same_heads s s"
  by (simp add: same_heads_def)

lemma same_heads_trans: "same_heads s s1 \<Longrightarrow> same_heads s1 s2 \<Longrightarrow> same_heads s s2"
  by (simp add: same_heads_def)

lemma sq_head_Push: "sq_head (SemiEndsQueue_Push p q) = sq_head q"
  by (simp add: SemiEndsQueue_Push_def Let_def)

lemma PushFull_heads: "same_heads s (PushFull e vc s)"
  by (simp add: same_heads_def PushFull_def Let_def FullVCQueue_Push_def)

lemma fold_PushFull_heads: "same_heads s (fold (PushFull e) vs s)"
proof (induction vs arbitrary: s)
  case Nil
  show ?case by (simp add: same_heads_refl)
next
  case (Cons v vs)
  show ?case
    using same_heads_trans[OF PushFull_heads Cons.IH] by simp
qed

lemma AddNewFull_heads: "AddNewFull e vc s = Inr (ok, s1) \<Longrightarrow> same_heads s s1"
  by (auto simp: AddNewFull_def same_heads_def PushFull_def Let_def FullVCQueue_Push_def
           split: if_splits prod.splits)

lemma AddNewSemi_heads: "AddNewSemi vc s = (ok, s1) \<Longrightarrow> same_heads s s1"
  by (auto simp: AddNewSemi_def same_heads_def Let_def sq_head_Push
           split: if_splits prod.splits)

lemma DoAnd_add_heads: "DoAnd_add e v s = Inr s1 \<Longrightarrow> same_heads s s1"
  by (auto simp: DoAnd_add_def Let_def same_heads_def
           split: VCType.splits sum.splits prod.splits if_splits
           dest!: AddNewFull_heads AddNewSemi_heads)

lemma DoAnd_adds_heads: "DoAnd_adds e vs s = Inr s1 \<Longrightarrow> same_heads s s1"
proof (induction vs arbitrary: s)
  case Nil
  then show ?case by (simp add: same_heads_refl)
next
  case (Cons v vs)
  then show ?case
    by (auto split: sum.splits intro: same_heads_trans dest: DoAnd_add_heads)
qed

lemma DoAnd_loop_heads:
  "DoAnd_loop e from over to rule vc capturedSet is s = Inr s1 \<Longrightarrow> same_heads s s1"
proof (induction "is" arbitrary: s)
  case Nil
  then show ?case by (simp add: same_heads_refl)
next
  case (Cons i "is")
  then show ?case
    by (auto split: sum.splits intro: same_heads_trans dest: DoAnd_adds_heads)
qed

lemma DoAnd_heads:
  "DoAnd e from over to rule vc capturedSet old s = Inr s1 \<Longrightarrow> same_heads s s1"
  by (auto simp: DoAnd_def same_heads_refl split: if_splits dest: DoAnd_loop_heads)

lemma AndClosure_nbr_heads:
  "AndClosure_nbr e vc endp_i endp_j endc_i z s = Inr s1 \<Longrightarrow> same_heads s s1"
  by (auto simp: AndClosure_nbr_def Let_def same_heads_refl split: if_splits dest: DoAnd_heads)

lemma AndClosure_nbrs_heads:
  "AndClosure_nbrs e vc endp_i endp_j endc_i zs s = Inr s1 \<Longrightarrow> same_heads s s1"
proof (induction zs arbitrary: s)
  case Nil
  then show ?case by (simp add: same_heads_refl)
next
  case (Cons z zs)
  then show ?case
    by (auto split: sum.splits intro: same_heads_trans dest: AndClosure_nbr_heads)
qed

lemma AndClosure_end_heads:
  "AndClosure_end e vc endp_i endp_j endc_i s = Inr s1 \<Longrightarrow> same_heads s s1"
  by (auto simp: AndClosure_end_def same_heads_refl split: if_splits dest: AndClosure_nbrs_heads)

lemma AndClosure_heads: "AndClosure e vc s = Inr s1 \<Longrightarrow> same_heads s s1"
  by (auto simp: AndClosure_def Let_def split: if_splits sum.splits
           intro: same_heads_trans dest: AndClosure_end_heads)

lemma ProcessFulls_heads: "ProcessFulls e vc s = Inr s1 \<Longrightarrow> same_heads s s1"
  by (auto simp: ProcessFulls_def Let_def same_heads_refl
           split: option.splits if_splits sum.splits dest!: AndClosure_heads)
     (auto simp: same_heads_def)

lemma finish_semis_heads: "same_heads s (finish_semis e xc yc s t)"
proof -
  have "same_heads s (s\<lparr>m_con := c, m_log := l, m_statistics := st\<rparr>)" for c l st
    by (simp add: same_heads_def)
  then show ?thesis
    unfolding finish_semis_def by (rule same_heads_trans[OF _ fold_PushFull_heads])
qed

lemma ProcessSemis_heads: "ProcessSemis e xc yc s = Some (Inr s1) \<Longrightarrow> same_heads s s1"
  by (auto simp: ProcessSemis_def Let_def same_heads_refl finish_semis_heads
           split: if_splits sum.splits option.splits prod.splits)

section \<open>The order of the two queues\<close>

lemma ex_one_full_body:
  "DoSearch_body ex_env ex_one_full =
     Continue (Some (Inr (ex_one_full\<lparr>m_fulls_queue := FullVCQueue_Pop (m_fulls_queue ex_one_full)\<rparr>)))"
  by (simp add: DoSearch_body_def ex_one_full_def ex_builder_def FullVCQueue_Empty_def
        FullVCQueue_Clear_def FullVCQueue_Push_def FullVCQueue_Front_def
        ProcessFulls_def Let_def GetList_def pair_key_def ex_con_def FindInList_def)

text \<open>
  C6.  An iteration of the search loop with a Full waiting in the fulls queue (the cursor
  of the queue is before the end of its vector) pops that Full and runs \<open>ProcessFulls\<close> on
  it, and nothing else: when the iteration completes, the fulls cursor has moved by one and
  the semis cursor has not moved.  A pair is popped from the semis queue, and
  \<open>ProcessSemis\<close> run on it, in an iteration with an empty fulls queue and a pair waiting
  in the semis queue: then the semis cursor moves by one and the fulls cursor stays.  With
  both queues empty the loop is left.
\<close>

theorem DoSearch_body_fulls_first:
  fixes s :: "'c::{finite,linorder} builder"
  shows "(fq_head (m_fulls_queue s) < length (fq_array (m_fulls_queue s)) \<longrightarrow>
            \<not> FullVCQueue_Empty (m_fulls_queue s)
          \<and> DoSearch_body e s =
              Continue (Some (ProcessFulls e (fq_array (m_fulls_queue s) ! fq_head (m_fulls_queue s))
                                (s\<lparr>m_fulls_queue := FullVCQueue_Pop (m_fulls_queue s)\<rparr>)))
          \<and> (\<forall>s'. DoSearch_body e s = Continue (Some (Inr s')) \<longrightarrow>
                 fq_head (m_fulls_queue s') = fq_head (m_fulls_queue s) + 1
               \<and> sq_head (m_semis_queue s') = sq_head (m_semis_queue s)))
       \<and> (FullVCQueue_Empty (m_fulls_queue s)
          \<and> sq_head (m_semis_queue s) < length (sq_array (m_semis_queue s)) \<longrightarrow>
            DoSearch_body e s =
              Continue (ProcessSemis e (fst (sq_array (m_semis_queue s) ! sq_head (m_semis_queue s)))
                                       (snd (sq_array (m_semis_queue s) ! sq_head (m_semis_queue s)))
                          (s\<lparr>m_semis_queue := SemiEndsQueue_Pop (m_semis_queue s)\<rparr>))
          \<and> (\<forall>s'. DoSearch_body e s = Continue (Some (Inr s')) \<longrightarrow>
                 sq_head (m_semis_queue s') = sq_head (m_semis_queue s) + 1
               \<and> fq_head (m_fulls_queue s') = fq_head (m_fulls_queue s)))
       \<and> (FullVCQueue_Empty (m_fulls_queue s) \<and> SemiEndsQueue_Empty (m_semis_queue s) \<longrightarrow>
            DoSearch_body e s = Break)"
proof (intro conjI impI allI)
  assume h: "fq_head (m_fulls_queue s) < length (fq_array (m_fulls_queue s))"
  then show ne: "\<not> FullVCQueue_Empty (m_fulls_queue s)"
    by (simp add: FullVCQueue_Empty_def)
  from h ne show body: "DoSearch_body e s =
      Continue (Some (ProcessFulls e (fq_array (m_fulls_queue s) ! fq_head (m_fulls_queue s))
                        (s\<lparr>m_fulls_queue := FullVCQueue_Pop (m_fulls_queue s)\<rparr>)))"
    by (simp add: DoSearch_body_def FullVCQueue_Front_def)
  fix s' assume "DoSearch_body e s = Continue (Some (Inr s'))"
  with body have "ProcessFulls e (fq_array (m_fulls_queue s) ! fq_head (m_fulls_queue s))
                    (s\<lparr>m_fulls_queue := FullVCQueue_Pop (m_fulls_queue s)\<rparr>) = Inr s'"
    by simp
  from ProcessFulls_heads[OF this]
  show "fq_head (m_fulls_queue s') = fq_head (m_fulls_queue s) + 1"
    and "sq_head (m_semis_queue s') = sq_head (m_semis_queue s)"
    by (simp_all add: same_heads_def FullVCQueue_Pop_def)
next
  assume h: "FullVCQueue_Empty (m_fulls_queue s)
          \<and> sq_head (m_semis_queue s) < length (sq_array (m_semis_queue s))"
  then show body: "DoSearch_body e s =
      Continue (ProcessSemis e (fst (sq_array (m_semis_queue s) ! sq_head (m_semis_queue s)))
                               (snd (sq_array (m_semis_queue s) ! sq_head (m_semis_queue s)))
                  (s\<lparr>m_semis_queue := SemiEndsQueue_Pop (m_semis_queue s)\<rparr>))"
    by (simp add: DoSearch_body_def SemiEndsQueue_Front_def SemiEndsQueue_Empty_def)
  fix s' assume "DoSearch_body e s = Continue (Some (Inr s'))"
  with body have "ProcessSemis e (fst (sq_array (m_semis_queue s) ! sq_head (m_semis_queue s)))
                               (snd (sq_array (m_semis_queue s) ! sq_head (m_semis_queue s)))
                  (s\<lparr>m_semis_queue := SemiEndsQueue_Pop (m_semis_queue s)\<rparr>) = Some (Inr s')"
    by simp
  from ProcessSemis_heads[OF this] h
  show "sq_head (m_semis_queue s') = sq_head (m_semis_queue s) + 1"
    and "fq_head (m_fulls_queue s') = fq_head (m_fulls_queue s)"
    by (simp_all add: same_heads_def SemiEndsQueue_Pop_def SemiEndsQueue_Front_def split: prod.splits)
next
  assume "FullVCQueue_Empty (m_fulls_queue s) \<and> SemiEndsQueue_Empty (m_semis_queue s)"
  then show "DoSearch_body e s = Break"
    by (simp add: DoSearch_body_def)
qed

theorem DoSearch_body_fulls_first_witness:
  "fq_head (m_fulls_queue ex_one_full) < length (fq_array (m_fulls_queue ex_one_full))
   \<and> sq_head (m_semis_queue ex_one_full) < length (sq_array (m_semis_queue ex_one_full))
   \<and> DoSearch_body ex_env ex_one_full =
       Continue (Some (ProcessFulls ex_env (VC_base 2 3)
                         (ex_one_full\<lparr>m_fulls_queue := FullVCQueue_Pop (m_fulls_queue ex_one_full)\<rparr>)))
   \<and> (\<exists>s'. DoSearch_body ex_env ex_one_full = Continue (Some (Inr s'))
          \<and> fq_head (m_fulls_queue s') = 1 \<and> sq_head (m_semis_queue s') = 0
          \<and> sq_array (m_semis_queue s') = [(2, 3)])"
proof -
  have q: "fq_head (m_fulls_queue ex_one_full) = 0"
          "fq_array (m_fulls_queue ex_one_full) = [VC_base 2 3]"
          "sq_head (m_semis_queue ex_one_full) = 0"
          "sq_array (m_semis_queue ex_one_full) = [(2, 3)]"
    by (simp_all add: ex_one_full_def ex_builder_def FullVCQueue_Clear_def
          FullVCQueue_Push_def SemiEndsQueue_Push_def SemiEndsQueue_Clear_def Let_def)
  have run: "DoSearch_body ex_env ex_one_full =
     Continue (Some (Inr (ex_one_full\<lparr>m_fulls_queue := FullVCQueue_Pop (m_fulls_queue ex_one_full)\<rparr>)))"
    by (rule ex_one_full_body)
  define s1 where
    "s1 = ex_one_full\<lparr>m_fulls_queue := FullVCQueue_Pop (m_fulls_queue ex_one_full)\<rparr>"
  have lt: "fq_head (m_fulls_queue ex_one_full) < length (fq_array (m_fulls_queue ex_one_full))"
    by (simp add: q)
  from DoSearch_body_fulls_first[of ex_one_full ex_env] lt
  have body: "DoSearch_body ex_env ex_one_full =
      Continue (Some (ProcessFulls ex_env
                        (fq_array (m_fulls_queue ex_one_full) ! fq_head (m_fulls_queue ex_one_full)) s1))"
    and heads: "\<forall>s'. DoSearch_body ex_env ex_one_full = Continue (Some (Inr s')) \<longrightarrow>
                 fq_head (m_fulls_queue s') = fq_head (m_fulls_queue ex_one_full) + 1
               \<and> sq_head (m_semis_queue s') = sq_head (m_semis_queue ex_one_full)"
    unfolding s1_def by blast+
  have run1: "DoSearch_body ex_env ex_one_full = Continue (Some (Inr s1))"
    unfolding s1_def by (rule run)
  from heads run1 have h: "fq_head (m_fulls_queue s1) = 1" "sq_head (m_semis_queue s1) = 0"
    by (simp_all add: q)
  have a: "sq_array (m_semis_queue s1) = [(2, 3)]" by (simp add: s1_def q)
  from body have b: "DoSearch_body ex_env ex_one_full =
       Continue (Some (ProcessFulls ex_env (VC_base 2 3) s1))" by (simp add: q)
  from run1 h a have "\<exists>s'. DoSearch_body ex_env ex_one_full = Continue (Some (Inr s'))
          \<and> fq_head (m_fulls_queue s') = 1 \<and> sq_head (m_semis_queue s') = 0
          \<and> sq_array (m_semis_queue s') = [(2, 3)]"
    by (intro exI[of _ s1] conjI)
  with lt b show ?thesis
    unfolding s1_def by (simp add: q)
qed

section \<open>The state when the search ends\<close>

lemma DoSearch_loop_result:
  assumes "DoSearch_loop e s = Some r"
  shows "search_post e r"
proof (rule DoSearch_loop.raw_induct[where P = "\<lambda>e s r. search_post e r", OF _ assms])
  fix loop :: "'a env \<Rightarrow> 'a builder \<Rightarrow> (assertion + bool \<times> 'a builder) option"
    and e s r
  assume IH: "\<And>e s r. loop e s = Some r \<Longrightarrow> search_post e r"
    and step: "(case DoSearch_body e s of
        Break \<Rightarrow> Some (Inr (False, s))
      | Continue None \<Rightarrow> None
      | Continue (Some (Inl a)) \<Rightarrow> Some (Inl a)
      | Continue (Some (Inr s1)) \<Rightarrow>
          if winning e s1 then Some (Inr (True, s1)) else loop e s1) = Some r"
  show "search_post e r"
  proof (cases "DoSearch_body e s")
    case Break
    with step show ?thesis
      by (auto simp: search_post_def DoSearch_body_def split: if_splits option.splits)
  next
    case (Continue x)
    show ?thesis
    proof (cases x)
      case None
      with step Continue show ?thesis by simp
    next
      case (Some y)
      show ?thesis
      proof (cases y)
        case (Inl a)
        with step Continue Some show ?thesis by (auto simp: search_post_def)
      next
        case (Inr s1)
        show ?thesis
        proof (cases "winning e s1")
          case True
          with step Continue Some Inr show ?thesis by (auto simp: winning_def search_post_def)
        next
          case False
          with step Continue Some Inr have "loop e s1 = Some r" by simp
          then show ?thesis by (rule IH)
        qed
      qed
    qed
  qed
qed

lemma ex_one_semi_body:
  "DoSearch_body ex_env ex_one_semi =
     Continue (Some (Inr (ex_one_semi\<lparr>m_semis_queue := SemiEndsQueue_Pop (m_semis_queue ex_one_semi)\<rparr>)))"
  by (simp add: DoSearch_body_def ex_one_semi_def ex_builder_def FullVCQueue_Empty_def
        FullVCQueue_Clear_def SemiEndsQueue_Empty_def SemiEndsQueue_Push_def SemiEndsQueue_Clear_def
        SemiEndsQueue_Front_def Let_def ProcessSemis_def GetList_def SetList_def pair_key_def
        HardIntersection_def inter_carriers_def ex_semi_def VC_semi_def)

lemma ex_one_semi_search:
  "DoSearch ex_env ex_one_semi =
     Some (Inr (ex_one_semi\<lparr>m_semis_queue := SemiEndsQueue_Pop (m_semis_queue ex_one_semi)\<rparr>))"
proof -
  let ?s1 = "ex_one_semi\<lparr>m_semis_queue := SemiEndsQueue_Pop (m_semis_queue ex_one_semi)\<rparr>"
  have w: "\<not> winning ex_env s" for s
    by (simp add: winning_def ex_env_def VCBuilderParam_default_def)
  have b: "DoSearch_body ex_env ?s1 = Break"
    by (simp add: DoSearch_body_def ex_one_semi_def ex_builder_def FullVCQueue_Empty_def
        FullVCQueue_Clear_def SemiEndsQueue_Empty_def SemiEndsQueue_Push_def SemiEndsQueue_Clear_def
        SemiEndsQueue_Front_def SemiEndsQueue_Pop_def Let_def)
  have "DoSearch_loop ex_env ?s1 = Some (Inr (False, ?s1))"
    by (subst DoSearch_loop.simps) (simp add: b)
  then have "DoSearch_loop ex_env ex_one_semi = Some (Inr (False, ?s1))"
    by (subst DoSearch_loop.simps) (simp add: ex_one_semi_body w)
  moreover have "FullVCQueue_Empty (m_fulls_queue ?s1) \<and> SemiEndsQueue_Empty (m_semis_queue ?s1)"
    by (simp add: ex_one_semi_def ex_builder_def FullVCQueue_Empty_def
        FullVCQueue_Clear_def SemiEndsQueue_Empty_def SemiEndsQueue_Push_def SemiEndsQueue_Clear_def
        SemiEndsQueue_Front_def SemiEndsQueue_Pop_def Let_def)
  ultimately show ?thesis
    by (simp add: DoSearch_def)
qed

text \<open>
  C2, as stated: when the search ends without the abort on a winning connection, both
  queues are empty and every connection of every list is processed.  It fails: a Semi
  whose list \<open>ProcessSemis\<close> leaves alone (its carrier is not inside the captured sets of
  the endpoints) is still unprocessed when the search ends.
\<close>

theorem DoSearch_leaves_unprocessed_semi:
  "\<exists>s'. DoSearch ex_env ex_one_semi = Some (Inr s')
        \<and> \<not> abort_on_winning_connection (m_param ex_env)
        \<and> \<not> all_processed (m_con s')"
proof -
  let ?s1 = "ex_one_semi\<lparr>m_semis_queue := SemiEndsQueue_Pop (m_semis_queue ex_one_semi)\<rparr>"
  have "\<not> list_all VC_Processed (L_entries (m_con ?s1 SEMI (2, 3)))"
    by (simp add: ex_one_semi_def SetList_def pair_key_def ex_semi_def VC_semi_def)
  then have "\<not> all_processed (m_con ?s1)"
    unfolding all_processed_def by blast
  moreover have "\<not> abort_on_winning_connection (m_param ex_env)"
    by (simp add: ex_env_def VCBuilderParam_default_def)
  ultimately show ?thesis
    using ex_one_semi_search by blast
qed

text \<open>
  C2, amended: when \<open>DoSearch\<close> ends with \<open>abort_on_winning_connection = false\<close>, both
  the fulls queue and the semis queue are empty.
\<close>

theorem DoSearch_queues_empty:
  assumes "DoSearch e s = Some (Inr s')"
    and "\<not> abort_on_winning_connection (m_param e)"
  shows "FullVCQueue_Empty (m_fulls_queue s') \<and> SemiEndsQueue_Empty (m_semis_queue s')"
  using assms DoSearch_loop_result[of e s]
  by (auto simp: DoSearch_def search_post_def split: option.splits sum.splits if_splits)

theorem DoSearch_queues_empty_witness:
  "FullVCQueue_Empty (m_fulls_queue (ex_one_semi\<lparr>m_semis_queue := SemiEndsQueue_Pop (m_semis_queue ex_one_semi)\<rparr>))
   \<and> SemiEndsQueue_Empty (m_semis_queue (ex_one_semi\<lparr>m_semis_queue := SemiEndsQueue_Pop (m_semis_queue ex_one_semi)\<rparr>))"
proof -
  have "\<not> abort_on_winning_connection (m_param ex_env)"
    by (simp add: ex_env_def VCBuilderParam_default_def)
  from DoSearch_queues_empty[OF ex_one_semi_search this] show ?thesis .
qed

section \<open>The connections the AND rule derives\<close>

lemma singleton_diff:
  fixes S :: "'c::{finite,linorder} set"
  assumes "S - {Min S} = {}" and "S - C \<noteq> {}"
  shows "S - C = {Min S}"
proof -
  have "S - C \<subseteq> {Min S}" using assms(1) by blast
  with assms(2) show ?thesis by (meson subset_singletonD)
qed

lemma DoAnd_emit_uncaptured_eq:
  assumes "VC_Carrier a \<inter> VC_Carrier b \<noteq> {}"
    and "\<not> VC_Carrier a \<inter> VC_Carrier b \<subseteq> capturedSet"
  shows "DoAnd_emit from over to rule b capturedSet a =
     (if \<not> VC_Processed a \<or> to \<in> VC_Carrier a \<or> rule \<noteq> CREATE_FULL then []
      else (if VC_Carrier a \<inter> VC_Carrier b - {Min (VC_Carrier a \<inter> VC_Carrier b)} = {}
            then [AndVCs_semi from to a b (Min (VC_Carrier a \<inter> VC_Carrier b))] else []) @
           (if (VC_Carrier a \<inter> VC_Carrier b - capturedSet)
                 - {Min (VC_Carrier a \<inter> VC_Carrier b - capturedSet)} = {}
            then [AndVCs_semi_cap from to a b capturedSet
                    (Min (VC_Carrier a \<inter> VC_Carrier b - capturedSet))] else []))"
  using assms by (cases rule) (simp_all add: DoAnd_emit_def Let_def)

text \<open>
  C4.  When the carriers of the two Fulls meet in a non-empty set \<open>I\<close> that is not inside
  the combined captured set, \<open>DoAnd\<close> emits a connection only when the rule is
  \<open>CREATE_FULL\<close> and \<open>I\<close> minus the captured set is a single cell; each connection it
  emits is then a Semi with that cell as key; in every other such case it emits nothing.
\<close>

theorem DoAnd_emit_uncaptured:
  fixes a b :: "'c::{finite,linorder} VC"
  assumes "VC_Carrier a \<inter> VC_Carrier b \<noteq> {}"
    and "\<not> VC_Carrier a \<inter> VC_Carrier b \<subseteq> capturedSet"
  shows "(\<forall>v \<in> set (DoAnd_emit from over to rule b capturedSet a).
            rule = CREATE_FULL
            \<and> (\<exists>k. VC_Carrier a \<inter> VC_Carrier b - capturedSet = {k}
                   \<and> GetType v = SEMI \<and> VC_Key v = Some k))
         \<and> (rule \<noteq> CREATE_FULL \<or> (\<forall>k. VC_Carrier a \<inter> VC_Carrier b - capturedSet \<noteq> {k})
              \<longrightarrow> DoAnd_emit from over to rule b capturedSet a = [])"
proof -
  define I where "I = VC_Carrier a \<inter> VC_Carrier b"
  define D where "D = I - capturedSet"
  have D: "D \<noteq> {}" using assms(2) by (auto simp: D_def I_def)
  have eq: "DoAnd_emit from over to rule b capturedSet a =
     (if \<not> VC_Processed a \<or> to \<in> VC_Carrier a \<or> rule \<noteq> CREATE_FULL then []
      else (if I - {Min I} = {} then [AndVCs_semi from to a b (Min I)] else []) @
           (if D - {Min D} = {} then [AndVCs_semi_cap from to a b capturedSet (Min D)] else []))"
    unfolding D_def I_def by (rule DoAnd_emit_uncaptured_eq[OF assms])
  have semi1: "GetType (AndVCs_semi from to a b k) = SEMI \<and> VC_Key (AndVCs_semi from to a b k) = Some k" for k
    by (simp add: GetType_def AndVCs_semi_def VC_semi_def)
  have semi2: "GetType (AndVCs_semi_cap from to a b capturedSet k) = SEMI
               \<and> VC_Key (AndVCs_semi_cap from to a b capturedSet k) = Some k" for k
    by (simp add: GetType_def AndVCs_semi_cap_def VC_semi_def)
  have first: "D = {Min I}" if "I - {Min I} = {}"
    using singleton_diff[OF that, of capturedSet] D by (simp add: D_def)
  have second: "D = {Min D}" if "D - {Min D} = {}"
    using singleton_diff[OF that, of "{}"] D by simp
  have none: "D - {Min D} \<noteq> {}" "I - {Min I} \<noteq> {}" if "\<forall>k. D \<noteq> {k}"
    using that first second by blast+
  have part1: "\<forall>v \<in> set (DoAnd_emit from over to rule b capturedSet a).
            rule = CREATE_FULL \<and> (\<exists>k. D = {k} \<and> GetType v = SEMI \<and> VC_Key v = Some k)"
  proof
    fix v assume v: "v \<in> set (DoAnd_emit from over to rule b capturedSet a)"
    then have r: "rule = CREATE_FULL"
      unfolding eq by (auto split: if_splits)
    from v consider (a) "I - {Min I} = {}" "v = AndVCs_semi from to a b (Min I)"
      | (b) "D - {Min D} = {}" "v = AndVCs_semi_cap from to a b capturedSet (Min D)"
      unfolding eq by (auto split: if_splits)
    then have "\<exists>k. D = {k} \<and> GetType v = SEMI \<and> VC_Key v = Some k"
    proof cases
      case a
      with first semi1 show ?thesis by blast
    next
      case b
      with second semi2 show ?thesis by blast
    qed
    with r show "rule = CREATE_FULL \<and> (\<exists>k. D = {k} \<and> GetType v = SEMI \<and> VC_Key v = Some k)"
      by simp
  qed
  have part2: "DoAnd_emit from over to rule b capturedSet a = []"
    if "rule \<noteq> CREATE_FULL \<or> (\<forall>k. D \<noteq> {k})"
    using that none unfolding eq by auto
  from part1 part2 show ?thesis
    unfolding D_def I_def by blast
qed

theorem DoAnd_emit_uncaptured_witness:
  "DoAnd_emit 4 2 3 CREATE_FULL ex_b {6} ex_a \<noteq> []
   \<and> VC_Carrier ex_a \<inter> VC_Carrier ex_b - {6} = {5}
   \<and> list_all (\<lambda>v. GetType v = SEMI \<and> VC_Key v = Some 5) (DoAnd_emit 4 2 3 CREATE_FULL ex_b {6} ex_a)"
proof -
  have I: "VC_Carrier ex_a \<inter> VC_Carrier ex_b = {5, 6}"
    by (auto simp: ex_a_def ex_b_def VC_full_def)
  have h1: "VC_Carrier ex_a \<inter> VC_Carrier ex_b \<noteq> {}"
    and h2: "\<not> VC_Carrier ex_a \<inter> VC_Carrier ex_b \<subseteq> {6}"
    unfolding I by auto
  have D: "VC_Carrier ex_a \<inter> VC_Carrier ex_b - {6} = {5}"
    unfolding I by auto
  have ne: "DoAnd_emit 4 2 3 CREATE_FULL ex_b {6} ex_a \<noteq> []"
    using I D by (simp add: DoAnd_emit_def Let_def ex_a_def VC_full_def)
  from DoAnd_emit_uncaptured[OF h1 h2, of 4 2 3 CREATE_FULL] D ne show ?thesis
    by (auto simp: list_all_iff)
qed

section \<open>Captured sets of occupied cells\<close>

lemma fold_fun_upd:
  "fold (\<lambda>p cap. cap(p := F p)) ps cap0 q = (if q \<in> set ps then F q else cap0 q)"
  by (induction ps arbitrary: cap0) auto

text \<open>
  C10.  After \<open>ComputeCapturedSets\<close> the captured set of every cell of the board (edges
  and interior) that is not empty is the empty set, so in a union of captured sets it
  contributes nothing.
\<close>

theorem ComputeCapturedSets_occupied:
  assumes "p \<in> set (EdgesAndInterior (m_groups e))"
    and "GetColor (m_groups e) p \<noteq> EMPTY"
  shows "m_capturedSet (ComputeCapturedSets e s) p = {}
         \<and> m_capturedSet (ComputeCapturedSets e s) p \<union> m_capturedSet (ComputeCapturedSets e s) q
           = m_capturedSet (ComputeCapturedSets e s) q"
  using assms by (simp add: ComputeCapturedSets_def fold_fun_upd)

theorem ComputeCapturedSets_occupied_witness:
  "2 \<in> set (EdgesAndInterior (m_groups ex_env_stone))
   \<and> GetColor (m_groups ex_env_stone) 2 \<noteq> EMPTY
   \<and> m_capturedSet (ComputeCapturedSets ex_env_stone ex_builder) 2 = {}
   \<and> m_capturedSet (ComputeCapturedSets ex_env_stone ex_builder) 3 = {7}"
proof -
  have h: "2 \<in> set (EdgesAndInterior (m_groups ex_env_stone))"
          "GetColor (m_groups ex_env_stone) 2 \<noteq> EMPTY"
    by (simp_all add: ex_env_stone_def ex_env_def ex_groups_def)
  have "m_capturedSet (ComputeCapturedSets ex_env_stone ex_builder) 3 = {7}"
    by (simp add: ComputeCapturedSets_def fold_fun_upd ex_env_stone_def ex_env_def
          ex_groups_def captured_of_hits_def)
  with h ComputeCapturedSets_occupied[OF h, of ex_builder 3] show ?thesis
    by simp
qed

section \<open>Lists, tables and pushes\<close>

lemmas ex_defs = ex_semis_only_def ex_semis_and_full_def ex_builder_def ex_con_def ex_caps_def
  ex_semi_def ex_env_def ex_stats_def VCBuilderParam_default_def

lemmas con_defs = GetList_def SetList_def pair_key_def VC_semi_def VC_full_def

lemma GetList_SetList:
  "GetList (SetList con t x y l) t' x' y' =
     (if t = t' \<and> pair_key x y = pair_key x' y' then l else GetList con t' x' y')"
  by (simp add: GetList_def SetList_def)

lemma PushFull_fields:
  "m_con (PushFull e v s) = m_con s"
  "m_log (PushFull e v s) = m_log s"
  "m_statistics (PushFull e v s) = m_statistics s"
  "m_semis_queue (PushFull e v s) = m_semis_queue s"
  "m_capturedSet (PushFull e v s) = m_capturedSet s"
  "fq_array (m_fulls_queue (PushFull e v s)) = fq_array (m_fulls_queue s) @ [v]"
  by (simp_all add: PushFull_def Let_def FullVCQueue_Push_def)

lemma fold_PushFull_con: "m_con (fold (PushFull e) vs s) = m_con s"
  by (induction vs arbitrary: s) (simp_all add: PushFull_fields)

lemma fold_PushFull_queue:
  "fq_array (m_fulls_queue (fold (PushFull e) vs s)) = fq_array (m_fulls_queue s) @ vs"
  by (induction vs arbitrary: s) (simp_all add: PushFull_fields)

lemma L_Add_empty:
  "L_entries l = [] \<Longrightarrow>
   L_Add l v lg = (if 0 < L_Softlimit l then ADDED_INSIDE_SOFT_LIMIT else ADDED_INSIDE_HARD_LIMIT,
                   l\<lparr>L_entries := [v]\<rparr>, log_push ADD v lg)"
  by (simp add: L_Add_def IsSupersetOfAny_def Let_def insert_pos_def log_push_all_def)

lemma L_Add_nonempty:
  "L_Add l v lg = (r, l', lg') \<Longrightarrow> L_entries l \<noteq> [] \<or> r \<noteq> ADD_FAILED \<Longrightarrow> L_entries l' \<noteq> []"
  by (auto simp: L_Add_def Let_def split: if_splits)

lemma L_Add_XY:
  "L_Add l v lg = (r, l', lg') \<Longrightarrow> L_X l' = L_X l \<and> L_Y l' = L_Y l \<and> L_Softlimit l' = L_Softlimit l"
  by (auto simp: L_Add_def Let_def split: if_splits)

section \<open>Upgrading a Semi whose key was played\<close>

lemma UpgradeSemi_key_in:
  "key_in added it \<Longrightarrow>
   UpgradeSemi it added xout yout = Inr (VC_full xout yout (VC_Carrier it - added) (VC_Rule it))"
  by (auto simp: key_in_def UpgradeSemi_def split: option.splits)

text \<open>One pass of the upgrade loop on a Semi whose key is in \<open>added\<close>.\<close>

lemma upgrade_semi_step:
  fixes s :: "'c::{finite,linorder} builder"
  assumes "key_in added it"
  shows "\<exists>v s'. UpgradeSemi it added xout yout = Inr v
     \<and> GetType v = FULL \<and> VC_X v = min xout yout \<and> VC_Y v = max xout yout
     \<and> VC_Carrier v = VC_Carrier it - added
     \<and> upgrade_semi e added xout yout it s = Inr s'
     \<and> (case L_Add (GetList (m_con s) FULL xout yout) v (m_log s) of
          (result, fullsOut, log1) \<Rightarrow>
            GetList (m_con s') FULL xout yout = fullsOut
            \<and> (if result \<noteq> ADD_FAILED then
                 L_entries (GetList (m_con s') SEMI xout yout) =
                   filter (\<lambda>w. \<not> VC_Carrier v \<subseteq> VC_Carrier w)
                     (L_entries (GetList (m_con s) SEMI xout yout))
                 \<and> fq_array (m_fulls_queue s') = fq_array (m_fulls_queue s) @ [v]
                 \<and> upgraded (m_statistics s') = upgraded (m_statistics s) + 1
               else
                 GetList (m_con s') SEMI xout yout = GetList (m_con s) SEMI xout yout
                 \<and> m_fulls_queue s' = m_fulls_queue s
                 \<and> m_statistics s' = m_statistics s))"
proof -
  define v where "v = VC_full xout yout (VC_Carrier it - added) (VC_Rule it)"
  have up: "UpgradeSemi it added xout yout = Inr v"
    unfolding v_def by (rule UpgradeSemi_key_in[OF assms])
  have shape: "GetType v = FULL \<and> VC_X v = min xout yout \<and> VC_Y v = max xout yout
               \<and> VC_Carrier v = VC_Carrier it - added"
    by (simp add: v_def VC_full_def GetType_def)
  obtain result fullsOut log1 where
    add: "L_Add (GetList (m_con s) FULL xout yout) v (m_log s) = (result, fullsOut, log1)"
    by (cases "L_Add (GetList (m_con s) FULL xout yout) v (m_log s)") auto
  show ?thesis
  proof (cases "result = ADD_FAILED")
    case True
    then have "upgrade_semi e added xout yout it s
                 = Inr (s\<lparr>m_con := SetList (m_con s) FULL xout yout fullsOut, m_log := log1\<rparr>)"
      using assms up add by (simp add: upgrade_semi_def Let_def)
    with up shape add True show ?thesis
      by (simp add: GetList_SetList)
  next
    case False
    obtain semisOut log2 where
      rm: "L_RemoveSuperSetsOf (GetList (SetList (m_con s) FULL xout yout fullsOut) SEMI xout yout)
             (VC_Carrier v) log1 = (semisOut, log2)"
      by (cases "L_RemoveSuperSetsOf (GetList (SetList (m_con s) FULL xout yout fullsOut) SEMI xout yout)
             (VC_Carrier v) log1") auto
    have run: "upgrade_semi e added xout yout it s
                 = Inr (PushFull e v
                          (s\<lparr>m_con := SetList (SetList (m_con s) FULL xout yout fullsOut)
                                          SEMI xout yout semisOut,
                             m_log := log2,
                             m_statistics := (m_statistics s)
                                \<lparr>upgraded := upgraded (m_statistics s) + 1\<rparr>\<rparr>))"
      using assms up add False rm by (simp add: upgrade_semi_def Let_def)
    have semis: "L_entries semisOut = filter (\<lambda>w. \<not> VC_Carrier v \<subseteq> VC_Carrier w)
                     (L_entries (GetList (m_con s) SEMI xout yout))"
      using rm by (auto simp: L_RemoveSuperSetsOf_def GetList_SetList)
    from up shape add False run semis show ?thesis
      by (simp add: GetList_SetList PushFull_fields)
  qed
qed

lemma upgrade_semi_returns: "\<exists>s'. upgrade_semi e added xout yout it s = Inr s'"
  by (cases "key_in added it")
     (auto simp: upgrade_semi_def UpgradeSemi_key_in Let_def split: prod.splits)

lemma upgrade_semis_returns: "\<exists>s'. upgrade_semis e added xout yout its s = Inr s'"
proof (induction its arbitrary: s)
  case Nil
  show ?case by simp
next
  case (Cons it its)
  from upgrade_semi_returns[of e added xout yout it s] obtain s1 where
    "upgrade_semi e added xout yout it s = Inr s1" by blast
  with Cons[of s1] show ?case by simp
qed

lemma upgrade_semis_append:
  "upgrade_semis e added xout yout (pre @ post) s =
     (case upgrade_semis e added xout yout pre s of
        Inl a \<Rightarrow> Inl a
      | Inr t \<Rightarrow> upgrade_semis e added xout yout post t)"
  by (induction pre arbitrary: s) (simp_all split: sum.splits)

lemma upgrade_semis_split:
  assumes "upgrade_semis e added xout yout (pre @ it # post) s = Inr s'"
  shows "\<exists>t t'. upgrade_semis e added xout yout pre s = Inr t
               \<and> upgrade_semi e added xout yout it t = Inr t'
               \<and> upgrade_semis e added xout yout post t' = Inr s'"
proof -
  from upgrade_semis_returns[of e added xout yout pre s] obtain t where
    t: "upgrade_semis e added xout yout pre s = Inr t" by blast
  from upgrade_semi_returns[of e added xout yout it t] obtain t' where
    t': "upgrade_semi e added xout yout it t = Inr t'" by blast
  from assms t t' have "upgrade_semis e added xout yout post t' = Inr s'"
    by (simp add: upgrade_semis_append)
  with t t' show ?thesis by blast
qed

lemma shrink_full_semis:
  "GetList (m_con (shrink_full e added xout yout it s)) SEMI x y = GetList (m_con s) SEMI x y"
  by (simp add: shrink_full_def Let_def PushFull_fields GetList_SetList split: prod.splits)

lemma fold_shrink_full_semis:
  "GetList (m_con (fold (shrink_full e added xout yout) its s)) SEMI x y = GetList (m_con s) SEMI x y"
  by (induction its arbitrary: s) (simp_all add: shrink_full_semis)

lemma MergeAndShrink_shrink_removed:
  "fst (MergeAndShrink_shrink e added xin yin xout yout s) =
     filter (\<lambda>v. VC_Carrier v \<inter> added \<noteq> {}) (L_entries (GetList (m_con s) SEMI xin yin))"
  by (simp add: MergeAndShrink_shrink_def Let_def L_RemoveAllContaining_def
        fold_shrink_full_semis fold_PushFull_con GetList_SetList split: prod.splits)


text \<open>
  C9.  The inner \<open>MergeAndShrink\<close> with distinct in endpoints and distinct out endpoints
  returns, and ends with the upgrade loop over \<open>removed\<close>, the Semis of the in list whose
  carrier meets \<open>added\<close>.  Each of them whose key is in \<open>added\<close> has its pass \<open>t \<rightarrow> t'\<close> of
  that loop: it is upgraded to a Full \<open>v\<close> with the out endpoints and the old carrier minus
  \<open>added\<close>, and \<open>v\<close> is added to the out Full list; when the add succeeds, the Semis of the
  out Semi list whose carriers are supersets of the carrier of \<open>v\<close> are removed, \<open>v\<close> is
  pushed onto the fulls queue and the counter \<open>upgraded\<close> goes up by one; when the add
  fails, none of the three happens.
\<close>

theorem MergeAndShrink_pair_upgrades:
  fixes s :: "'c::{finite,linorder} builder"
  assumes "xin \<noteq> yin" and "xout \<noteq> yout"
  shows "\<exists>removed s7 s'.
       MergeAndShrink_shrink e added xin yin xout yout s = (removed, s7)
     \<and> removed = filter (\<lambda>w. VC_Carrier w \<inter> added \<noteq> {})
                   (L_entries (GetList (m_con s) SEMI xin yin))
     \<and> MergeAndShrink_pair e added xin yin xout yout s = Inr s'
     \<and> (\<forall>pre it post. removed = pre @ it # post \<and> key_in added it \<longrightarrow>
          (\<exists>t t' v.
               upgrade_semis e added xout yout pre s7 = Inr t
             \<and> upgrade_semi e added xout yout it t = Inr t'
             \<and> upgrade_semis e added xout yout post t' = Inr s'
             \<and> UpgradeSemi it added xout yout = Inr v
             \<and> GetType v = FULL \<and> VC_X v = min xout yout \<and> VC_Y v = max xout yout
             \<and> VC_Carrier v = VC_Carrier it - added
             \<and> (case L_Add (GetList (m_con t) FULL xout yout) v (m_log t) of
                  (result, fullsOut, log1) \<Rightarrow>
                    GetList (m_con t') FULL xout yout = fullsOut
                    \<and> (if result \<noteq> ADD_FAILED then
                         L_entries (GetList (m_con t') SEMI xout yout) =
                           filter (\<lambda>w. \<not> VC_Carrier v \<subseteq> VC_Carrier w)
                             (L_entries (GetList (m_con t) SEMI xout yout))
                         \<and> fq_array (m_fulls_queue t') = fq_array (m_fulls_queue t) @ [v]
                         \<and> upgraded (m_statistics t') = upgraded (m_statistics t) + 1
                       else
                         GetList (m_con t') SEMI xout yout = GetList (m_con t) SEMI xout yout
                         \<and> m_fulls_queue t' = m_fulls_queue t
                         \<and> m_statistics t' = m_statistics t))))"
proof -
  obtain removed s7 where
    sh: "MergeAndShrink_shrink e added xin yin xout yout s = (removed, s7)"
    by (cases "MergeAndShrink_shrink e added xin yin xout yout s") auto
  have rem: "removed = filter (\<lambda>w. VC_Carrier w \<inter> added \<noteq> {})
                         (L_entries (GetList (m_con s) SEMI xin yin))"
    using MergeAndShrink_shrink_removed[of e added xin yin xout yout s] sh by simp
  from upgrade_semis_returns[of e added xout yout removed s7] obtain s' where
    up: "upgrade_semis e added xout yout removed s7 = Inr s'" by blast
  have run: "MergeAndShrink_pair e added xin yin xout yout s = Inr s'"
    using assms sh up by (simp add: MergeAndShrink_pair_def)
  have each: "\<exists>t t' v.
               upgrade_semis e added xout yout pre s7 = Inr t
             \<and> upgrade_semi e added xout yout it t = Inr t'
             \<and> upgrade_semis e added xout yout post t' = Inr s'
             \<and> UpgradeSemi it added xout yout = Inr v
             \<and> GetType v = FULL \<and> VC_X v = min xout yout \<and> VC_Y v = max xout yout
             \<and> VC_Carrier v = VC_Carrier it - added
             \<and> (case L_Add (GetList (m_con t) FULL xout yout) v (m_log t) of
                  (result, fullsOut, log1) \<Rightarrow>
                    GetList (m_con t') FULL xout yout = fullsOut
                    \<and> (if result \<noteq> ADD_FAILED then
                         L_entries (GetList (m_con t') SEMI xout yout) =
                           filter (\<lambda>w. \<not> VC_Carrier v \<subseteq> VC_Carrier w)
                             (L_entries (GetList (m_con t) SEMI xout yout))
                         \<and> fq_array (m_fulls_queue t') = fq_array (m_fulls_queue t) @ [v]
                         \<and> upgraded (m_statistics t') = upgraded (m_statistics t) + 1
                       else
                         GetList (m_con t') SEMI xout yout = GetList (m_con t) SEMI xout yout
                         \<and> m_fulls_queue t' = m_fulls_queue t
                         \<and> m_statistics t' = m_statistics t))"
    if split: "removed = pre @ it # post" and key: "key_in added it" for pre it post
  proof -
    from up split have "upgrade_semis e added xout yout (pre @ it # post) s7 = Inr s'" by simp
    from upgrade_semis_split[OF this] obtain t t' where
      t: "upgrade_semis e added xout yout pre s7 = Inr t" and
      t': "upgrade_semi e added xout yout it t = Inr t'" and
      rest: "upgrade_semis e added xout yout post t' = Inr s'"
      by blast
    from upgrade_semi_step[OF key, of xout yout e t] obtain v u where
      v: "UpgradeSemi it added xout yout = Inr v" and
      shape: "GetType v = FULL" "VC_X v = min xout yout" "VC_Y v = max xout yout"
             "VC_Carrier v = VC_Carrier it - added" and
      u: "upgrade_semi e added xout yout it t = Inr u" and
      eff: "case L_Add (GetList (m_con t) FULL xout yout) v (m_log t) of
                  (result, fullsOut, log1) \<Rightarrow>
                    GetList (m_con u) FULL xout yout = fullsOut
                    \<and> (if result \<noteq> ADD_FAILED then
                         L_entries (GetList (m_con u) SEMI xout yout) =
                           filter (\<lambda>w. \<not> VC_Carrier v \<subseteq> VC_Carrier w)
                             (L_entries (GetList (m_con t) SEMI xout yout))
                         \<and> fq_array (m_fulls_queue u) = fq_array (m_fulls_queue t) @ [v]
                         \<and> upgraded (m_statistics u) = upgraded (m_statistics t) + 1
                       else
                         GetList (m_con u) SEMI xout yout = GetList (m_con t) SEMI xout yout
                         \<and> m_fulls_queue u = m_fulls_queue t
                         \<and> m_statistics u = m_statistics t)"
      by (elim exE conjE) (rule that, assumption+)
    from u t' have ut: "u = t'" by simp
    show ?thesis
      by (rule exI[of _ t], rule exI[of _ t'], rule exI[of _ v])
         (use t t' rest v shape eff[unfolded ut] in simp)
  qed
  show ?thesis
  proof (rule exI[of _ removed], rule exI[of _ s7], rule exI[of _ s'], intro conjI allI impI)
    show "MergeAndShrink_shrink e added xin yin xout yout s = (removed, s7)" by (rule sh)
    show "removed = filter (\<lambda>w. VC_Carrier w \<inter> added \<noteq> {})
                      (L_entries (GetList (m_con s) SEMI xin yin))" by (rule rem)
    show "MergeAndShrink_pair e added xin yin xout yout s = Inr s'" by (rule run)
  next
    fix pre it post
    assume "removed = pre @ it # post \<and> key_in added it"
    then show "\<exists>t t' v.
               upgrade_semis e added xout yout pre s7 = Inr t
             \<and> upgrade_semi e added xout yout it t = Inr t'
             \<and> upgrade_semis e added xout yout post t' = Inr s'
             \<and> UpgradeSemi it added xout yout = Inr v
             \<and> GetType v = FULL \<and> VC_X v = min xout yout \<and> VC_Y v = max xout yout
             \<and> VC_Carrier v = VC_Carrier it - added
             \<and> (case L_Add (GetList (m_con t) FULL xout yout) v (m_log t) of
                  (result, fullsOut, log1) \<Rightarrow>
                    GetList (m_con t') FULL xout yout = fullsOut
                    \<and> (if result \<noteq> ADD_FAILED then
                         L_entries (GetList (m_con t') SEMI xout yout) =
                           filter (\<lambda>w. \<not> VC_Carrier v \<subseteq> VC_Carrier w)
                             (L_entries (GetList (m_con t) SEMI xout yout))
                         \<and> fq_array (m_fulls_queue t') = fq_array (m_fulls_queue t) @ [v]
                         \<and> upgraded (m_statistics t') = upgraded (m_statistics t) + 1
                       else
                         GetList (m_con t') SEMI xout yout = GetList (m_con t) SEMI xout yout
                         \<and> m_fulls_queue t' = m_fulls_queue t
                         \<and> m_statistics t' = m_statistics t))"
      using each[of pre it post] by blast
  qed
qed

lemma ex_merge_shrink:
  "fst (MergeAndShrink_shrink ex_env {5} 2 3 2 3 ex_merge) = [ex_semi56]"
  "L_entries (GetList (m_con (snd (MergeAndShrink_shrink ex_env {5} 2 3 2 3 ex_merge))) FULL 2 3) = []"
  "L_entries (GetList (m_con (snd (MergeAndShrink_shrink ex_env {5} 2 3 2 3 ex_merge))) SEMI 2 3)
     = [VC_semi 2 3 7 {6, 7} VC_RULE_AND]"
  "fq_array (m_fulls_queue (snd (MergeAndShrink_shrink ex_env {5} 2 3 2 3 ex_merge))) = []"
  "upgraded (m_statistics (snd (MergeAndShrink_shrink ex_env {5} 2 3 2 3 ex_merge))) = 0"
  by (simp_all add: MergeAndShrink_shrink_def ex_merge_def ex_builder_def ex_con_def ex_semi56_def
        ex_stats_def Let_def L_RemoveAllContaining_def GetList_def SetList_def pair_key_def
        VC_semi_def log_push_all_def shrink_semi_def key_in_def FullVCQueue_Clear_def)

theorem MergeAndShrink_pair_upgrades_witness:
  "(2::8 word) \<noteq> 3
   \<and> (\<exists>s'. MergeAndShrink_pair ex_env {5} 2 3 2 3 ex_merge = Inr s'
          \<and> L_entries (GetList (m_con s') FULL 2 3) = [VC_full 2 3 {6} VC_RULE_AND]
          \<and> L_entries (GetList (m_con s') SEMI 2 3) = []
          \<and> fq_array (m_fulls_queue s') = [VC_full 2 3 {6} VC_RULE_AND]
          \<and> upgraded (m_statistics s') = 1)"
proof -
  have ne: "(2::8 word) \<noteq> 3" by simp
  have key: "key_in {5} ex_semi56"
    by (simp add: key_in_def ex_semi56_def VC_semi_def)
  have c: "VC_Carrier ex_semi56 - {5} = {6}"
    by (auto simp: ex_semi56_def VC_semi_def)
  from MergeAndShrink_pair_upgrades[OF ne ne, of ex_env "{5}" ex_merge] obtain removed s7 s' where
    sh: "MergeAndShrink_shrink ex_env {5} 2 3 2 3 ex_merge = (removed, s7)" and
    run: "MergeAndShrink_pair ex_env {5} 2 3 2 3 ex_merge = Inr s'" and
    each: "\<forall>pre it post. removed = pre @ it # post \<and> key_in {5} it \<longrightarrow>
          (\<exists>t t' v.
               upgrade_semis ex_env {5} 2 3 pre s7 = Inr t
             \<and> upgrade_semi ex_env {5} 2 3 it t = Inr t'
             \<and> upgrade_semis ex_env {5} 2 3 post t' = Inr s'
             \<and> UpgradeSemi it {5} 2 3 = Inr v
             \<and> GetType v = FULL \<and> VC_X v = min 2 3 \<and> VC_Y v = max 2 3
             \<and> VC_Carrier v = VC_Carrier it - {5}
             \<and> (case L_Add (GetList (m_con t) FULL 2 3) v (m_log t) of
                  (result, fullsOut, log1) \<Rightarrow>
                    GetList (m_con t') FULL 2 3 = fullsOut
                    \<and> (if result \<noteq> ADD_FAILED then
                         L_entries (GetList (m_con t') SEMI 2 3) =
                           filter (\<lambda>w. \<not> VC_Carrier v \<subseteq> VC_Carrier w)
                             (L_entries (GetList (m_con t) SEMI 2 3))
                         \<and> fq_array (m_fulls_queue t') = fq_array (m_fulls_queue t) @ [v]
                         \<and> upgraded (m_statistics t') = upgraded (m_statistics t) + 1
                       else
                         GetList (m_con t') SEMI 2 3 = GetList (m_con t) SEMI 2 3
                         \<and> m_fulls_queue t' = m_fulls_queue t
                         \<and> m_statistics t' = m_statistics t)))"
    by (elim exE conjE) (rule that, assumption+)
  from sh ex_merge_shrink have
    removed: "removed = [] @ ex_semi56 # []" and
    f7: "L_entries (GetList (m_con s7) FULL 2 3) = []" and
    s7: "L_entries (GetList (m_con s7) SEMI 2 3) = [VC_semi 2 3 7 {6, 7} VC_RULE_AND]" and
    q7: "fq_array (m_fulls_queue s7) = []" and
    u7: "upgraded (m_statistics s7) = 0"
    by simp_all
  have pre: "removed = [] @ ex_semi56 # [] \<and> key_in {5} ex_semi56"
    using removed key by simp
  from each[rule_format, OF pre] obtain t t' v where
    t: "upgrade_semis ex_env {5} 2 3 [] s7 = Inr t" and
    t': "upgrade_semis ex_env {5} 2 3 [] t' = Inr s'" and
    v: "UpgradeSemi ex_semi56 {5} 2 3 = Inr v" and
    eff: "case L_Add (GetList (m_con t) FULL 2 3) v (m_log t) of
                  (result, fullsOut, log1) \<Rightarrow>
                    GetList (m_con t') FULL 2 3 = fullsOut
                    \<and> (if result \<noteq> ADD_FAILED then
                         L_entries (GetList (m_con t') SEMI 2 3) =
                           filter (\<lambda>w. \<not> VC_Carrier v \<subseteq> VC_Carrier w)
                             (L_entries (GetList (m_con t) SEMI 2 3))
                         \<and> fq_array (m_fulls_queue t') = fq_array (m_fulls_queue t) @ [v]
                         \<and> upgraded (m_statistics t') = upgraded (m_statistics t) + 1
                       else
                         GetList (m_con t') SEMI 2 3 = GetList (m_con t) SEMI 2 3
                         \<and> m_fulls_queue t' = m_fulls_queue t
                         \<and> m_statistics t' = m_statistics t)"
    by (elim exE conjE) (rule that, assumption+)
  from t t' have ts: "t = s7" "t' = s'" by simp_all
  from v UpgradeSemi_key_in[OF key, of 2 3] c have vv: "v = VC_full 2 3 {6} VC_RULE_AND"
    by (simp add: ex_semi56_def VC_semi_def)
  have cv: "VC_Carrier v = {6}" by (simp add: vv VC_full_def)
  have add: "L_Add (GetList (m_con s7) FULL 2 3) v (m_log s7) =
     (if 0 < L_Softlimit (GetList (m_con s7) FULL 2 3) then ADDED_INSIDE_SOFT_LIMIT
      else ADDED_INSIDE_HARD_LIMIT,
      (GetList (m_con s7) FULL 2 3)\<lparr>L_entries := [v]\<rparr>, log_push ADD v (m_log s7))"
    by (rule L_Add_empty[OF f7])
  from eff have
    A: "L_entries (GetList (m_con s') FULL 2 3) = [v]" and
    B: "L_entries (GetList (m_con s') SEMI 2 3) =
          filter (\<lambda>w. \<not> VC_Carrier v \<subseteq> VC_Carrier w) (L_entries (GetList (m_con s7) SEMI 2 3))" and
    C: "fq_array (m_fulls_queue s') = fq_array (m_fulls_queue s7) @ [v]" and
    D: "upgraded (m_statistics s') = upgraded (m_statistics s7) + 1"
    unfolding ts add by (simp_all split: if_splits)
  have B': "L_entries (GetList (m_con s') SEMI 2 3) = []"
    unfolding B s7 cv by (simp add: VC_semi_def)
  from ne run A B' C D show ?thesis
    unfolding q7 u7 vv by (intro conjI exI[of _ s']) simp_all
qed

section \<open>Processing a Semi list, bounded\<close>

lemma finish_semis_fulls:
  "GetList (m_con (finish_semis e xc yc s t)) FULL xc yc = ps_fulls t"
  by (simp add: finish_semis_def fold_PushFull_con GetList_SetList)

lemma finish_semis_queue:
  "fq_array (m_fulls_queue (finish_semis e xc yc s t)) = fq_array (m_fulls_queue s) @ ps_added t"
  by (simp add: finish_semis_def fold_PushFull_queue)

lemma map_update_same:
  "map f (list_update xs k y) = map f xs" if "f y = f (xs ! k)"
proof (cases "k < length xs")
  case True
  with that show ?thesis by (simp add: map_update list_update_same_conv)
next
  case False
  then show ?thesis by (metis list_update_beyond not_le_imp_less)
qed

lemma set_processed_carriers:
  "map VC_Carrier (L_entries (ps_semis (set_processed k t))) = map VC_Carrier (L_entries (ps_semis t))"
  by (simp add: set_processed_def Let_def map_update_same)

lemma or_soft_prefix_carriers:
  "or_soft_prefix caps m ks t = Some (Inr t') \<Longrightarrow>
   map VC_Carrier (L_entries (ps_semis t')) = map VC_Carrier (L_entries (ps_semis t))"
proof (induction ks arbitrary: t)
  case Nil
  then show ?case by simp
next
  case (Cons k ks)
  show ?case
  proof (cases "VC_Processed (L_entries (ps_semis t) ! k)")
    case True
    with Cons show ?thesis by simp
  next
    case False
    have "\<exists>t1. ps_semis t1 = ps_semis t
               \<and> or_soft_prefix caps m ks (set_processed k t1) = Some (Inr t')"
    proof (cases "OrRule caps (L_entries (ps_semis t) ! k) (ps_semis t) (ps_fulls t)
                    (ps_added t) m (ps_log t)
                    ((ps_stats t)\<lparr>doOrs := doOrs (ps_stats t) + 1\<rparr>)")
      case None
      with Cons.prems False show ?thesis by (simp add: Let_def)
    next
      case (Some r)
      show ?thesis
      proof (cases r)
        case (Inl a)
        with Cons.prems False Some show ?thesis by (simp add: Let_def)
      next
        case (Inr p)
        obtain n fulls1 added1 log1 st2 where p: "p = (n, fulls1, added1, log1, st2)"
          by (cases p) auto
        let ?t1 = "t\<lparr>ps_fulls := fulls1, ps_added := added1, ps_log := log1,
                     ps_stats := (if 0 < n then st2\<lparr>goodOrs := goodOrs st2 + 1\<rparr> else st2)\<rparr>"
        from Cons.prems False Some Inr p
        have "or_soft_prefix caps m ks (set_processed k ?t1) = Some (Inr t')"
          by (simp add: Let_def)
        moreover have "ps_semis ?t1 = ps_semis t" by simp
        ultimately show ?thesis by blast
      qed
    qed
    then obtain t1 where t1: "ps_semis t1 = ps_semis t"
      and rest: "or_soft_prefix caps m ks (set_processed k t1) = Some (Inr t')"
      by blast
    from Cons.IH[OF rest] t1 show ?thesis
      by (simp add: set_processed_carriers)
  qed
qed

lemma greedy_union_carriers:
  "map VC_Carrier vs = map VC_Carrier ws \<Longrightarrow> greedy_union vs I U = greedy_union ws I U"
proof (induction vs arbitrary: ws I U)
  case Nil
  then show ?case by simp
next
  case (Cons v vs)
  then obtain w ws' where ws: "ws = w # ws'" by (cases ws) auto
  with Cons.prems have "VC_Carrier v = VC_Carrier w" "map VC_Carrier vs = map VC_Carrier ws'"
    by simp_all
  with Cons.IH[of ws'] ws show ?case by simp
qed

lemma unions_carriers:
  assumes "map VC_Carrier (L_entries l) = map VC_Carrier (L_entries l')"
  shows "GetUnion l = GetUnion l'" and "GetGreedyUnion l = GetGreedyUnion l'"
proof -
  have "GetUnion k = foldr (\<union>) (map VC_Carrier (L_entries k)) {}" for k :: "'a VCList"
    by (simp add: GetUnion_def foldr_map comp_def)
  with assms show "GetUnion l = GetUnion l'" by simp
  show "GetGreedyUnion l = GetGreedyUnion l'"
    unfolding GetGreedyUnion_def by (rule greedy_union_carriers[OF assms])
qed

lemma union_all_fulls:
  "\<not> L_Empty (ps_fulls t) \<Longrightarrow> ps_fulls (union_all e capturedSet xc yc t) = ps_fulls t"
  "L_Empty (ps_fulls t) \<Longrightarrow>
   L_entries (ps_fulls (union_all e capturedSet xc yc t)) =
     [VC_full xc yc ((if use_greedy_union (m_param e) then GetGreedyUnion (ps_semis t)
                      else GetUnion (ps_semis t)) \<union> capturedSet) VC_RULE_ALL]"
  by (simp_all add: union_all_def L_Empty_def L_Add_empty Let_def)

text \<open>The enumeration terminates, so the bounded rule returns on every list and, with
  \<open>max_ors < 16\<close>, fails on no assertion.\<close>

lemma lex_step:
  assumes "p < length xs" "length ys = length xs" "take p ys = take p xs" "ys ! p < xs ! p"
  shows "(ys, xs) \<in> lex less_than"
proof -
  have "xs = take p xs @ xs ! p # drop (Suc p) xs"
    using assms(1) by (simp add: id_take_nth_drop)
  moreover have "ys = take p xs @ ys ! p # drop (Suc p) ys"
    using assms(1,2,3) by (metis id_take_nth_drop)
  ultimately show ?thesis
    using assms(2,4) unfolding lex_conv by (auto simp: less_than_iff)
qed

lemma or_vec_step:
  assumes "1 \<le> k" "k \<le> D"
    and eq: "\<And>j. 1 \<le> j \<Longrightarrow> j < k \<Longrightarrow> or_lvl N t' j = or_lvl N t j"
    and "or_lvl N t' k < or_lvl N t k"
  shows "(or_vec N D t', or_vec N D t) \<in> lex less_than"
proof (rule lex_step[where p = "k - 1"])
  show "k - 1 < length (or_vec N D t)" using assms(1,2) by (simp add: or_vec_def)
  show "length (or_vec N D t') = length (or_vec N D t)" by (simp add: or_vec_def)
  have "\<And>x. x < k - 1 \<Longrightarrow> or_lvl N t' (x + 1) = or_lvl N t (x + 1)"
    by (rule eq) simp_all
  then show "take (k - 1) (or_vec N D t') = take (k - 1) (or_vec N D t)"
    using assms(1,2) by (simp add: or_vec_def take_map)
  have "k - 1 < D" "Suc (k - 1) = k" using assms(1,2) by simp_all
  then show "or_vec N D t' ! (k - 1) < or_vec N D t ! (k - 1)"
    using assms(4) by (simp add: or_vec_def)
qed

lemma OrRule_add_d [simp]: "os_d (OrRule_add c t) = os_d t"
  by (simp add: OrRule_add_def Let_def split: prod.splits)

lemma OrRule_add_index [simp]: "os_index (OrRule_add c t) = os_index t"
  by (simp add: OrRule_add_def Let_def split: prod.splits)

lemma or_pop_step:
  assumes "or_inv N D t" "os_d t \<noteq> 1"
  defines "t' \<equiv> t\<lparr>os_d := os_d t - 1,
                    os_index := (os_index t)(os_d t - 1 := os_index t (os_d t - 1) + 1)\<rparr>"
  shows "or_inv N D t'" and "(or_vec N D t', or_vec N D t) \<in> lex less_than"
proof -
  have d: "2 \<le> os_d t" "os_d t \<le> D" and below: "os_index t (os_d t - 1) < N"
    using assms(1,2) by (auto simp: or_inv_def)
  have low: "\<And>k. 1 \<le> k \<Longrightarrow> k < os_d t \<Longrightarrow> os_index t k < N"
    using assms(1) by (auto simp: or_inv_def)
  show "or_inv N D t'"
    unfolding or_inv_def
  proof (intro conjI allI impI)
    show "1 \<le> os_d t'" using d by (simp add: t'_def)
    show "os_d t' \<le> D" using d by (simp add: t'_def)
    have "os_index t' (os_d t') = os_index t (os_d t - 1) + 1" by (simp add: t'_def)
    then show "os_index t' (os_d t') \<le> N" using below by simp
    fix k assume k: "1 \<le> k \<and> k < os_d t'"
    then have "k < os_d t - 1" by (simp add: t'_def)
    then have "os_index t' k = os_index t k" "k < os_d t" by (simp_all add: t'_def)
    then show "os_index t' k < N" using low[of k] k by simp
  qed
  show "(or_vec N D t', or_vec N D t) \<in> lex less_than"
  proof (rule or_vec_step[where k = "os_d t - 1"])
    show "1 \<le> os_d t - 1" "os_d t - 1 \<le> D" using d by simp_all
    show "or_lvl N t' j = or_lvl N t j" if "1 \<le> j" "j < os_d t - 1" for j
      using that by (simp add: or_lvl_def t'_def)
    show "or_lvl N t' (os_d t - 1) < or_lvl N t (os_d t - 1)"
      using below by (simp add: or_lvl_def t'_def)
  qed
qed

lemma or_next_step:
  assumes "or_inv N D t" "os_index t (os_d t) < N" "os_d u = os_d t" "os_index u = os_index t"
  shows "or_inv N D (next_index u)"
    and "(or_vec N D (next_index u), or_vec N D t) \<in> lex less_than"
proof -
  have d: "1 \<le> os_d t" "os_d t \<le> D" using assms(1) by (auto simp: or_inv_def)
  show "or_inv N D (next_index u)"
    using assms by (auto simp: or_inv_def next_index_def)
  show "(or_vec N D (next_index u), or_vec N D t) \<in> lex less_than"
  proof (rule or_vec_step[where k = "os_d t"])
    show "1 \<le> os_d t" "os_d t \<le> D" using d by simp_all
    show "or_lvl N (next_index u) j = or_lvl N t j" if "1 \<le> j" "j < os_d t" for j
      using that assms(3,4) by (simp add: or_lvl_def next_index_def)
    show "or_lvl N (next_index u) (os_d t) < or_lvl N t (os_d t)"
      using assms(2,3,4) by (simp add: or_lvl_def next_index_def)
  qed
qed

lemma or_push_step:
  assumes "or_inv N D t" "os_index t (os_d t) < N" "os_d t < D"
    "os_d u = os_d t" "os_index u = os_index t"
  defines "t' \<equiv> u\<lparr>os_d := os_d t + 1,
                    os_index := (os_index u)(os_d t + 1 := os_index t (os_d t) + 1)\<rparr>"
  shows "or_inv N D t'" and "(or_vec N D t', or_vec N D t) \<in> lex less_than"
proof -
  have d: "1 \<le> os_d t" using assms(1) by (auto simp: or_inv_def)
  have low: "\<And>k. 1 \<le> k \<Longrightarrow> k < os_d t \<Longrightarrow> os_index t k < N"
    using assms(1) by (auto simp: or_inv_def)
  show "or_inv N D t'"
    unfolding or_inv_def
  proof (intro conjI allI impI)
    show "1 \<le> os_d t'" by (simp add: t'_def)
    show "os_d t' \<le> D" using assms(3) by (simp add: t'_def)
    show "os_index t' (os_d t') \<le> N" using assms(2) by (simp add: t'_def)
    fix k assume k: "1 \<le> k \<and> k < os_d t'"
    show "os_index t' k < N"
    proof (cases "k = os_d t")
      case True
      then show ?thesis using assms(2,5) by (simp add: t'_def)
    next
      case False
      then have "k < os_d t" using k by (simp add: t'_def)
      then show ?thesis using low[of k] k assms(5) by (simp add: t'_def)
    qed
  qed
  show "(or_vec N D t', or_vec N D t) \<in> lex less_than"
  proof (rule or_vec_step[where k = "os_d t + 1"])
    show "1 \<le> os_d t + 1" "os_d t + 1 \<le> D" using assms(3) by simp_all
    show "or_lvl N t' j = or_lvl N t j" if "1 \<le> j" "j < os_d t + 1" for j
      using that assms(5) by (simp add: or_lvl_def t'_def)
    show "or_lvl N t' (os_d t + 1) < or_lvl N t (os_d t + 1)"
      by (simp add: or_lvl_def t'_def)
  qed
qed

lemma OrRule_loop_unfold:
  "OrRule_loop m_semi m_tail maxOrs capX capY cap t =
     (let N = length m_semi;
          d = os_d t;
          i = or_i m_semi m_tail cap t
      in if i = N then
           (if d = 1 then Some t
            else OrRule_loop m_semi m_tail maxOrs capX capY cap
                   (t\<lparr>os_d := d - 1, os_index := (os_index t)(d - 1 := os_index t (d - 1) + 1)\<rparr>))
         else if N < i then None
         else
           let and_d = os_ands t (d - 1) \<inter> VC_Carrier (m_semi ! i);
               or_d = os_ors t (d - 1) \<union> VC_Carrier (m_semi ! i);
               t1 = t\<lparr>os_ands := (os_ands t)(d := and_d), os_ors := (os_ors t)(d := or_d)\<rparr>
           in if and_d = {} then
                OrRule_loop m_semi m_tail maxOrs capX capY cap
                  (next_index (OrRule_add or_d t1))
              else if and_d \<subseteq> cap then
                OrRule_loop m_semi m_tail maxOrs capX capY cap
                  (next_index
                    (OrRule_add
                      (or_d \<union> (if and_d \<inter> capX \<noteq> {} then capX else {})
                            \<union> (if and_d \<inter> capY \<noteq> {} then capY else {})) t1))
              else if and_d = os_ands t (d - 1) then
                OrRule_loop m_semi m_tail maxOrs capX capY cap (next_index t1)
              else if int d < maxOrs then
                OrRule_loop m_semi m_tail maxOrs capX capY cap
                  (t1\<lparr>os_d := d + 1, os_index := (os_index t1)(d + 1 := i + 1)\<rparr>)
              else
                OrRule_loop m_semi m_tail maxOrs capX capY cap (next_index t1))"
  by (subst OrRule_loop.simps) (simp only: Let_def or_i_def)

lemma OrRule_loop_stop:
  assumes "or_i m_semi m_tail cap t = length m_semi" "os_d t = 1"
  shows "OrRule_loop m_semi m_tail maxOrs capX capY cap t = Some t"
  by (subst OrRule_loop_unfold) (simp only: Let_def assms if_True simp_thms)

lemma OrRule_loop_pop:
  assumes "or_i m_semi m_tail cap t = length m_semi" "os_d t \<noteq> 1"
  shows "OrRule_loop m_semi m_tail maxOrs capX capY cap t =
         OrRule_loop m_semi m_tail maxOrs capX capY cap
           (t\<lparr>os_d := os_d t - 1,
              os_index := (os_index t)(os_d t - 1 := os_index t (os_d t - 1) + 1)\<rparr>)"
  by (subst OrRule_loop_unfold) (simp only: Let_def assms if_True if_False simp_thms)

lemma OrRule_loop_go:
  assumes "or_i m_semi m_tail cap t < length m_semi"
  shows "\<exists>u. os_d u = os_d t \<and> os_index u = os_index t \<and>
           (OrRule_loop m_semi m_tail maxOrs capX capY cap t =
              OrRule_loop m_semi m_tail maxOrs capX capY cap (next_index u)
            \<or> int (os_d t) < maxOrs \<and>
              OrRule_loop m_semi m_tail maxOrs capX capY cap t =
              OrRule_loop m_semi m_tail maxOrs capX capY cap
                (u\<lparr>os_d := os_d t + 1,
                   os_index := (os_index u)(os_d t + 1 := os_index t (os_d t) + 1)\<rparr>))"
proof -
  have i: "or_i m_semi m_tail cap t = os_index t (os_d t)" "os_index t (os_d t) < length m_semi"
    using assms by (auto simp: or_i_def split: if_splits)
  then have no: "\<not> (os_index t (os_d t) < length m_semi
         \<and> os_ands t (os_d t - 1) \<inter> (m_tail ! os_index t (os_d t)) \<inter> (- cap) \<noteq> {})"
    using assms by (auto simp: or_i_def split: if_splits)
  have ne: "os_index t (os_d t) \<noteq> length m_semi" and nl: "\<not> length m_semi < os_index t (os_d t)"
    using i(2) by simp_all
  define and_d where "and_d = os_ands t (os_d t - 1) \<inter> VC_Carrier (m_semi ! os_index t (os_d t))"
  define or_d where "or_d = os_ors t (os_d t - 1) \<union> VC_Carrier (m_semi ! os_index t (os_d t))"
  define t1 where "t1 = t\<lparr>os_ands := (os_ands t)(os_d t := and_d), os_ors := (os_ors t)(os_d t := or_d)\<rparr>"
  have t1: "os_d t1 = os_d t" "os_index t1 = os_index t" by (simp_all add: t1_def)
  have unf: "OrRule_loop m_semi m_tail maxOrs capX capY cap t =
              (if and_d = {} then
                OrRule_loop m_semi m_tail maxOrs capX capY cap
                  (next_index (OrRule_add or_d t1))
              else if and_d \<subseteq> cap then
                OrRule_loop m_semi m_tail maxOrs capX capY cap
                  (next_index
                    (OrRule_add
                      (or_d \<union> (if and_d \<inter> capX \<noteq> {} then capX else {})
                            \<union> (if and_d \<inter> capY \<noteq> {} then capY else {})) t1))
              else if and_d = os_ands t (os_d t - 1) then
                OrRule_loop m_semi m_tail maxOrs capX capY cap (next_index t1)
              else if int (os_d t) < maxOrs then
                OrRule_loop m_semi m_tail maxOrs capX capY cap
                  (t1\<lparr>os_d := os_d t + 1,
                      os_index := (os_index t1)(os_d t + 1 := os_index t (os_d t) + 1)\<rparr>)
              else
                OrRule_loop m_semi m_tail maxOrs capX capY cap (next_index t1))"
    using ne nl
    by (subst OrRule_loop_unfold)
       (simp only: Let_def i(1) if_False and_d_def or_d_def t1_def simp_thms)
  show ?thesis
  proof (cases "and_d = {}")
    case True
    then show ?thesis unfolding unf
      by (intro exI[of _ "OrRule_add or_d t1"]) (simp add: t1)
  next
    case ne: False
    show ?thesis
    proof (cases "and_d \<subseteq> cap")
      case True
      then show ?thesis unfolding unf using ne
        by (intro exI[of _ "OrRule_add
                      (or_d \<union> (if and_d \<inter> capX \<noteq> {} then capX else {})
                            \<union> (if and_d \<inter> capY \<noteq> {} then capY else {})) t1"]) (simp add: t1)
    next
      case False
      then show ?thesis unfolding unf using ne
        by (intro exI[of _ t1]) (simp add: t1)
    qed
  qed
qed

lemma OrRule_loop_returns:
  fixes m_semi :: "'c::{finite,linorder} VC list"
  assumes D: "nat maxOrs \<le> D"
    and inv: "or_inv (length m_semi) D t"
  shows "\<exists>t'. OrRule_loop m_semi m_tail maxOrs capX capY cap t = Some t'"
proof -
  define N where "N = length m_semi"
  define R where "R = inv_image (lex less_than) (or_vec N D :: 'c or_state \<Rightarrow> nat list)"
  have wf: "wf R"
    unfolding R_def by (intro wf_inv_image wf_lex wf_less_than)
  have "or_inv N D t \<longrightarrow> (\<exists>t'. OrRule_loop m_semi m_tail maxOrs capX capY cap t = Some t')"
  proof (induction t rule: wf_induct_rule[OF wf])
    case (1 t)
    show ?case
    proof
      assume I: "or_inv N D t"
      have IH: "\<exists>t'. OrRule_loop m_semi m_tail maxOrs capX capY cap u = Some t'"
        if "or_inv N D u" "(or_vec N D u, or_vec N D t) \<in> lex less_than" for u
        using 1[of u] that by (simp add: R_def)
      have iN: "or_i m_semi m_tail cap t \<le> N"
        using I by (simp add: or_inv_def or_i_def N_def)
      show "\<exists>t'. OrRule_loop m_semi m_tail maxOrs capX capY cap t = Some t'"
      proof (cases "or_i m_semi m_tail cap t = N")
        case True
        show ?thesis
        proof (cases "os_d t = 1")
          case d1: True
          show ?thesis
            using OrRule_loop_stop[OF True[unfolded N_def] d1] by simp
        next
          case d1: False
          note st = or_pop_step[OF I d1]
          show ?thesis
            using OrRule_loop_pop[OF True[unfolded N_def] d1] IH[OF st] by simp
        qed
      next
        case False
        then have lt: "or_i m_semi m_tail cap t < length m_semi" using iN by (simp add: N_def)
        then have idx: "os_index t (os_d t) < N"
          by (auto simp: or_i_def N_def split: if_splits)
        obtain u where u: "os_d u = os_d t" "os_index u = os_index t"
          and alt: "OrRule_loop m_semi m_tail maxOrs capX capY cap t =
              OrRule_loop m_semi m_tail maxOrs capX capY cap (next_index u)
            \<or> int (os_d t) < maxOrs \<and>
              OrRule_loop m_semi m_tail maxOrs capX capY cap t =
              OrRule_loop m_semi m_tail maxOrs capX capY cap
                (u\<lparr>os_d := os_d t + 1,
                   os_index := (os_index u)(os_d t + 1 := os_index t (os_d t) + 1)\<rparr>)"
          using OrRule_loop_go[OF lt, of maxOrs capX capY]
          by (elim exE conjE) (rule that, assumption+)
        from alt show ?thesis
        proof
          assume e: "OrRule_loop m_semi m_tail maxOrs capX capY cap t =
              OrRule_loop m_semi m_tail maxOrs capX capY cap (next_index u)"
          show ?thesis unfolding e using IH[OF or_next_step[OF I idx u]] .
        next
          assume e: "int (os_d t) < maxOrs \<and>
              OrRule_loop m_semi m_tail maxOrs capX capY cap t =
              OrRule_loop m_semi m_tail maxOrs capX capY cap
                (u\<lparr>os_d := os_d t + 1,
                   os_index := (os_index u)(os_d t + 1 := os_index t (os_d t) + 1)\<rparr>)"
          then have "int (os_d t) < maxOrs" by simp
          then have "os_d t < D" using D by arith
          from or_push_step[OF I idx this u] IH
          show ?thesis using e by simp
        qed
      qed
    qed
  qed
  then show ?thesis using inv by (simp add: N_def)
qed

lemma OrRule_returns:
  fixes semi_list :: "'c::{finite,linorder} VCList"
  assumes "maxOrs - 1 < 16"
  shows "\<exists>r. OrRule capSet vc semi_list full_list added maxOrs lg stats = Some (Inr r)"
proof (cases "L_Empty semi_list \<or> filter VC_Processed (soft_entries semi_list) = []")
  case True
  then show ?thesis by (auto simp: OrRule_def Let_def)
next
  case False
  define m_semi where "m_semi = filter VC_Processed (soft_entries semi_list)"
  define t0 :: "'c or_state" where
    "t0 = \<lparr>os_d = 1, os_index = (\<lambda>k. 0),
           os_ors = (\<lambda>k. VC_Carrier vc), os_ands = (\<lambda>k. VC_Carrier vc),
           os_count = 0, os_fulls = full_list, os_added = added, os_log = lg,
           os_stats = stats\<rparr>"
  have "or_inv (length m_semi) (max 1 (nat (maxOrs - 1))) t0"
    by (simp add: or_inv_def t0_def)
  from OrRule_loop_returns[OF _ this, of "maxOrs - 1" "tail_inter m_semi"
         "capSet (L_X semi_list)" "capSet (L_Y semi_list)"
         "capSet (L_X semi_list) \<union> capSet (L_Y semi_list)"]
  obtain t' where "OrRule_loop m_semi (tail_inter m_semi) (maxOrs - 1)
         (capSet (L_X semi_list)) (capSet (L_Y semi_list))
         (capSet (L_X semi_list) \<union> capSet (L_Y semi_list)) t0 = Some t'"
    by auto
  then show ?thesis
    using False assms unfolding t0_def m_semi_def
    by (simp add: OrRule_def Let_def)
qed

lemma or_soft_prefix_returns:
  "m - 1 < 16 \<Longrightarrow> \<exists>t'. or_soft_prefix caps m ks t = Some (Inr t')"
proof (induction ks arbitrary: t)
  case Nil
  then show ?case by simp
next
  case (Cons k ks)
  show ?case
  proof (cases "VC_Processed (L_entries (ps_semis t) ! k)")
    case True
    then show ?thesis using Cons.IH[OF Cons.prems, of t] by simp
  next
    case False
    from OrRule_returns[OF Cons.prems, of caps "L_entries (ps_semis t) ! k" "ps_semis t"
           "ps_fulls t" "ps_added t" "ps_log t"
           "(ps_stats t)\<lparr>doOrs := doOrs (ps_stats t) + 1\<rparr>"]
    obtain r where r: "OrRule caps (L_entries (ps_semis t) ! k) (ps_semis t) (ps_fulls t)
           (ps_added t) m (ps_log t) ((ps_stats t)\<lparr>doOrs := doOrs (ps_stats t) + 1\<rparr>)
           = Some (Inr r)" by blast
    obtain n fulls1 added1 log1 st2 where p: "r = (n, fulls1, added1, log1, st2)"
      by (cases r) auto
    show ?thesis
      using False r p
        Cons.IH[OF Cons.prems, of "set_processed k
                    (t\<lparr>ps_fulls := fulls1, ps_added := added1, ps_log := log1,
                       ps_stats := (if 0 < n then st2\<lparr>goodOrs := goodOrs st2 + 1\<rparr> else st2)\<rparr>)"]
      by (simp add: Let_def del: OrRule_loop.simps)
  qed
qed

lemma ProcessSemis_bounded_returns:
  fixes s :: "'c::{finite,linorder} builder"
  assumes "max_ors (m_param e) < 16"
  shows "\<exists>s'. ProcessSemis e xc yc s = Some (Inr s')"
proof -
  have m: "max_ors (m_param e) - 1 < 16" using assms by simp
  from or_soft_prefix_returns[OF m, of "m_capturedSet s"
         "[0 ..< length (soft_entries (GetList (m_con s) SEMI xc yc))]"
         "\<lparr>ps_semis = GetList (m_con s) SEMI xc yc,
           ps_fulls = GetList (m_con s) FULL xc yc, ps_added = [],
           ps_log = m_log s, ps_stats = m_statistics s\<rparr>"]
  obtain t where "or_soft_prefix (m_capturedSet s) (max_ors (m_param e))
         [0 ..< length (soft_entries (GetList (m_con s) SEMI xc yc))]
         \<lparr>ps_semis = GetList (m_con s) SEMI xc yc,
           ps_fulls = GetList (m_con s) FULL xc yc, ps_added = [],
           ps_log = m_log s, ps_stats = m_statistics s\<rparr> = Some (Inr t)" by blast
  then show ?thesis using assms by (simp add: ProcessSemis_def Let_def)
qed

lemma ProcessSemis_bounded_run:
  assumes "HardIntersection (GetList (m_con s) SEMI xc yc)
             \<inter> - (m_capturedSet s xc \<union> m_capturedSet s yc) = {}"
    and "max_ors (m_param e) < 16"
    and "ProcessSemis e xc yc s = Some (Inr s')"
  shows "\<exists>t. or_soft_prefix (m_capturedSet s) (max_ors (m_param e))
               [0 ..< length (soft_entries (GetList (m_con s) SEMI xc yc))]
               \<lparr>ps_semis = GetList (m_con s) SEMI xc yc,
                ps_fulls = GetList (m_con s) FULL xc yc, ps_added = [],
                ps_log = m_log s, ps_stats = m_statistics s\<rparr> = Some (Inr t)
             \<and> s' = finish_semis e xc yc s
                      (union_all e (m_capturedSet s xc \<union> m_capturedSet s yc) xc yc t)"
  using assms
  by (auto simp: ProcessSemis_def Let_def split: option.splits sum.splits)

lemma ex_semis_only_hard:
  "HardIntersection (GetList (m_con ex_semis_only) SEMI 2 3)
     \<inter> - (m_capturedSet ex_semis_only 2 \<union> m_capturedSet ex_semis_only 3) = {}"
  "HardIntersection (GetList (m_con ex_semis_and_full) SEMI 2 3)
     \<inter> - (m_capturedSet ex_semis_and_full 2 \<union> m_capturedSet ex_semis_and_full 3) = {}"
  by (simp_all add: ex_defs con_defs HardIntersection_def inter_carriers_def)

lemma ex_semis_only_or:
  "\<exists>t. or_soft_prefix (m_capturedSet ex_semis_only) (max_ors (m_param ex_env))
          [0 ..< length (soft_entries (GetList (m_con ex_semis_only) SEMI 2 3))]
          \<lparr>ps_semis = GetList (m_con ex_semis_only) SEMI 2 3,
           ps_fulls = GetList (m_con ex_semis_only) FULL 2 3, ps_added = [],
           ps_log = m_log ex_semis_only, ps_stats = m_statistics ex_semis_only\<rparr> = Some (Inr t)
        \<and> L_Empty (ps_fulls t) \<and> ps_added t = []"
  by (simp add: ex_defs con_defs soft_entries_def OrRule_def L_Empty_def set_processed_def Let_def)

lemma ex_semis_and_full_or:
  "\<exists>t. or_soft_prefix (m_capturedSet ex_semis_and_full) (max_ors (m_param ex_env))
          [0 ..< length (soft_entries (GetList (m_con ex_semis_and_full) SEMI 2 3))]
          \<lparr>ps_semis = GetList (m_con ex_semis_and_full) SEMI 2 3,
           ps_fulls = GetList (m_con ex_semis_and_full) FULL 2 3, ps_added = [],
           ps_log = m_log ex_semis_and_full, ps_stats = m_statistics ex_semis_and_full\<rparr>
          = Some (Inr t)
        \<and> L_entries (ps_fulls t) = [VC_full 2 3 {6} VC_RULE_BASE] \<and> ps_added t = []"
  by (simp add: ex_defs con_defs soft_entries_def OrRule_def L_Empty_def set_processed_def Let_def)

lemma ex_semis_runs:
  "\<exists>s'. ProcessSemis ex_env 2 3 ex_semis_only = Some (Inr s')"
  "\<exists>s'. ProcessSemis ex_env 2 3 ex_semis_and_full = Some (Inr s')"
  using ex_semis_only_hard ex_semis_only_or ex_semis_and_full_or
  by (auto simp: ProcessSemis_def Let_def ex_env_def VCBuilderParam_default_def)

text \<open>
  C7, as stated: past the early return and with \<open>max_ors < 16\<close>, if the OR rule over the
  soft prefix produced no Full, a Full tagged \<open>All\<close> is added.  It fails beside a Full that
  is already in the list: the OR rule adds nothing, the list is not empty, and no union is
  made.
\<close>

theorem ProcessSemis_no_union_beside_a_full:
  "HardIntersection (GetList (m_con ex_semis_and_full) SEMI 2 3)
     \<inter> - (m_capturedSet ex_semis_and_full 2 \<union> m_capturedSet ex_semis_and_full 3) = {}
   \<and> max_ors (m_param ex_env) < 16
   \<and> (\<exists>t s'. or_soft_prefix (m_capturedSet ex_semis_and_full) (max_ors (m_param ex_env))
          [0 ..< length (soft_entries (GetList (m_con ex_semis_and_full) SEMI 2 3))]
          \<lparr>ps_semis = GetList (m_con ex_semis_and_full) SEMI 2 3,
           ps_fulls = GetList (m_con ex_semis_and_full) FULL 2 3, ps_added = [],
           ps_log = m_log ex_semis_and_full, ps_stats = m_statistics ex_semis_and_full\<rparr>
          = Some (Inr t)
        \<and> ps_added t = []
        \<and> ProcessSemis ex_env 2 3 ex_semis_and_full = Some (Inr s')
        \<and> L_entries (GetList (m_con s') FULL 2 3) = [VC_full 2 3 {6} VC_RULE_BASE]
        \<and> fq_array (m_fulls_queue s') = [])"
proof -
  have m: "max_ors (m_param ex_env) < 16"
    by (simp add: ex_env_def VCBuilderParam_default_def)
  from ex_semis_runs(2) obtain s' where
    run: "ProcessSemis ex_env 2 3 ex_semis_and_full = Some (Inr s')" by blast
  from ProcessSemis_bounded_run[OF ex_semis_only_hard(2) m run] obtain t where
    t: "or_soft_prefix (m_capturedSet ex_semis_and_full) (max_ors (m_param ex_env))
          [0 ..< length (soft_entries (GetList (m_con ex_semis_and_full) SEMI 2 3))]
          \<lparr>ps_semis = GetList (m_con ex_semis_and_full) SEMI 2 3,
           ps_fulls = GetList (m_con ex_semis_and_full) FULL 2 3, ps_added = [],
           ps_log = m_log ex_semis_and_full, ps_stats = m_statistics ex_semis_and_full\<rparr>
          = Some (Inr t)" and
    s': "s' = finish_semis ex_env 2 3 ex_semis_and_full
               (union_all ex_env (m_capturedSet ex_semis_and_full 2
                                  \<union> m_capturedSet ex_semis_and_full 3) 2 3 t)"
    by blast
  from ex_semis_and_full_or t have
    f: "L_entries (ps_fulls t) = [VC_full 2 3 {6} VC_RULE_BASE]" and a: "ps_added t = []"
    by auto
  from f have u: "union_all ex_env c 2 3 t = t" for c
    by (simp add: union_all_def L_Empty_def)
  have "L_entries (GetList (m_con s') FULL 2 3) = [VC_full 2 3 {6} VC_RULE_BASE]"
    unfolding s' u finish_semis_fulls by (rule f)
  moreover have "fq_array (m_fulls_queue s') = []"
    unfolding s' u finish_semis_queue
    by (simp add: a ex_semis_and_full_def ex_semis_only_def ex_builder_def FullVCQueue_Clear_def)
  ultimately show ?thesis
    using ex_semis_only_hard(2) m t a run by blast
qed

lemma ProcessSemis_bounded_shape:
  fixes s :: "'c::{finite,linorder} builder"
  assumes hard: "HardIntersection (GetList (m_con s) SEMI xc yc)
            \<inter> - (m_capturedSet s xc \<union> m_capturedSet s yc) = {}"
    and m: "max_ors (m_param e) < 16"
    and run: "ProcessSemis e xc yc s = Some (Inr s')"
  shows "\<exists>t. or_soft_prefix (m_capturedSet s) (max_ors (m_param e))
                  [0 ..< length (soft_entries (GetList (m_con s) SEMI xc yc))]
                  \<lparr>ps_semis = GetList (m_con s) SEMI xc yc,
                   ps_fulls = GetList (m_con s) FULL xc yc, ps_added = [],
                   ps_log = m_log s, ps_stats = m_statistics s\<rparr> = Some (Inr t)
              \<and> \<not> L_Empty (GetList (m_con s') FULL xc yc)
              \<and> (if L_Empty (ps_fulls t)
                 then L_entries (GetList (m_con s') FULL xc yc) =
                        [VC_full xc yc
                           ((if use_greedy_union (m_param e)
                             then GetGreedyUnion (GetList (m_con s) SEMI xc yc)
                             else GetUnion (GetList (m_con s) SEMI xc yc))
                            \<union> (m_capturedSet s xc \<union> m_capturedSet s yc)) VC_RULE_ALL]
                 else GetList (m_con s') FULL xc yc = ps_fulls t)"
proof -
  define semis where "semis = GetList (m_con s) SEMI xc yc"
  define cap where "cap = m_capturedSet s xc \<union> m_capturedSet s yc"
  define t0 where "t0 = \<lparr>ps_semis = semis, ps_fulls = GetList (m_con s) FULL xc yc,
      ps_added = [], ps_log = m_log s, ps_stats = m_statistics s\<rparr>"
  have "\<exists>t. or_soft_prefix (m_capturedSet s) (max_ors (m_param e))
          [0 ..< length (soft_entries semis)] t0 = Some (Inr t)
        \<and> s' = finish_semis e xc yc s (union_all e cap xc yc t)"
    unfolding semis_def cap_def t0_def by (rule ProcessSemis_bounded_run[OF hard m run])
  then obtain t where
    t: "or_soft_prefix (m_capturedSet s) (max_ors (m_param e))
          [0 ..< length (soft_entries semis)] t0 = Some (Inr t)" and
    s': "s' = finish_semis e xc yc s (union_all e cap xc yc t)"
    by blast
  have fulls: "GetList (m_con s') FULL xc yc = ps_fulls (union_all e cap xc yc t)"
    unfolding s' by (rule finish_semis_fulls)
  have carriers: "map VC_Carrier (L_entries (ps_semis t)) = map VC_Carrier (L_entries semis)"
    using or_soft_prefix_carriers[OF t] by (simp add: t0_def)
  have ne: "\<not> L_Empty (GetList (m_con s') FULL xc yc)"
    unfolding fulls using union_all_fulls[of t e cap xc yc]
    by (cases "L_Empty (ps_fulls t)") (simp_all add: L_Empty_def)
  have shape: "if L_Empty (ps_fulls t)
        then L_entries (GetList (m_con s') FULL xc yc) =
               [VC_full xc yc ((if use_greedy_union (m_param e) then GetGreedyUnion semis
                                else GetUnion semis) \<union> cap) VC_RULE_ALL]
        else GetList (m_con s') FULL xc yc = ps_fulls t"
    unfolding fulls using union_all_fulls[of t e cap xc yc] unions_carriers[OF carriers]
    by simp
  from ne t shape show ?thesis
    unfolding semis_def cap_def t0_def by (intro conjI exI[of _ t])
qed

text \<open>
  C7, amended.  \<open>ProcessSemis(x, y)\<close> returns the state unchanged when the hard
  intersection of the Semi list has a cell outside \<open>cap[x] \<union> cap[y]\<close>.  Otherwise, with
  \<open>max_ors < 16\<close>, it returns, on no assertion, and the Full list between \<open>x\<close> and \<open>y\<close> is
  then not empty: if the Full list is empty after the OR rule has run over the soft prefix,
  it then holds the single Full tagged \<open>All\<close> whose carrier is the union (greedy or plain,
  by \<open>use_greedy_union\<close>) of the Semi list together with \<open>cap[x] \<union> cap[y]\<close>; if it is not
  empty, it is left as the OR rule left it.
\<close>

theorem ProcessSemis_bounded:
  fixes s :: "'c::{finite,linorder} builder"
  shows "(HardIntersection (GetList (m_con s) SEMI xc yc)
            \<inter> - (m_capturedSet s xc \<union> m_capturedSet s yc) \<noteq> {}
          \<longrightarrow> ProcessSemis e xc yc s = Some (Inr s))
       \<and> (HardIntersection (GetList (m_con s) SEMI xc yc)
            \<inter> - (m_capturedSet s xc \<union> m_capturedSet s yc) = {}
          \<and> max_ors (m_param e) < 16
          \<longrightarrow> (\<exists>s' t. ProcessSemis e xc yc s = Some (Inr s')
                \<and> or_soft_prefix (m_capturedSet s) (max_ors (m_param e))
                        [0 ..< length (soft_entries (GetList (m_con s) SEMI xc yc))]
                        \<lparr>ps_semis = GetList (m_con s) SEMI xc yc,
                         ps_fulls = GetList (m_con s) FULL xc yc, ps_added = [],
                         ps_log = m_log s, ps_stats = m_statistics s\<rparr> = Some (Inr t)
                \<and> \<not> L_Empty (GetList (m_con s') FULL xc yc)
                \<and> (if L_Empty (ps_fulls t)
                   then L_entries (GetList (m_con s') FULL xc yc) =
                          [VC_full xc yc
                             ((if use_greedy_union (m_param e)
                               then GetGreedyUnion (GetList (m_con s) SEMI xc yc)
                               else GetUnion (GetList (m_con s) SEMI xc yc))
                              \<union> (m_capturedSet s xc \<union> m_capturedSet s yc)) VC_RULE_ALL]
                   else GetList (m_con s') FULL xc yc = ps_fulls t)))"
proof (rule conjI; rule impI)
  assume "HardIntersection (GetList (m_con s) SEMI xc yc)
            \<inter> - (m_capturedSet s xc \<union> m_capturedSet s yc) \<noteq> {}"
  then show "ProcessSemis e xc yc s = Some (Inr s)"
    by (simp add: ProcessSemis_def Let_def)
next
  assume a: "HardIntersection (GetList (m_con s) SEMI xc yc)
            \<inter> - (m_capturedSet s xc \<union> m_capturedSet s yc) = {}
          \<and> max_ors (m_param e) < 16"
  then have hard: "HardIntersection (GetList (m_con s) SEMI xc yc)
            \<inter> - (m_capturedSet s xc \<union> m_capturedSet s yc) = {}"
    and m: "max_ors (m_param e) < 16" by simp_all
  from ProcessSemis_bounded_returns[OF m, of xc yc s] obtain s' where
    run: "ProcessSemis e xc yc s = Some (Inr s')" by blast
  from ProcessSemis_bounded_shape[OF hard m run] run
  show "\<exists>s' t. ProcessSemis e xc yc s = Some (Inr s')
                \<and> or_soft_prefix (m_capturedSet s) (max_ors (m_param e))
                        [0 ..< length (soft_entries (GetList (m_con s) SEMI xc yc))]
                        \<lparr>ps_semis = GetList (m_con s) SEMI xc yc,
                         ps_fulls = GetList (m_con s) FULL xc yc, ps_added = [],
                         ps_log = m_log s, ps_stats = m_statistics s\<rparr> = Some (Inr t)
                \<and> \<not> L_Empty (GetList (m_con s') FULL xc yc)
                \<and> (if L_Empty (ps_fulls t)
                   then L_entries (GetList (m_con s') FULL xc yc) =
                          [VC_full xc yc
                             ((if use_greedy_union (m_param e)
                               then GetGreedyUnion (GetList (m_con s) SEMI xc yc)
                               else GetUnion (GetList (m_con s) SEMI xc yc))
                              \<union> (m_capturedSet s xc \<union> m_capturedSet s yc)) VC_RULE_ALL]
                   else GetList (m_con s') FULL xc yc = ps_fulls t)"
    by (elim exE conjE) (intro exI conjI, assumption+)
qed

theorem ProcessSemis_bounded_witness:
  "HardIntersection (GetList (m_con ex_semis_only) SEMI 2 3)
     \<inter> - (m_capturedSet ex_semis_only 2 \<union> m_capturedSet ex_semis_only 3) = {}
   \<and> max_ors (m_param ex_env) < 16
   \<and> (\<exists>s'. ProcessSemis ex_env 2 3 ex_semis_only = Some (Inr s')
          \<and> L_entries (GetList (m_con s') FULL 2 3) = [VC_full 2 3 {5} VC_RULE_ALL])"
proof -
  have m: "max_ors (m_param ex_env) < 16"
    by (simp add: ex_env_def VCBuilderParam_default_def)
  have u: "(if use_greedy_union (m_param ex_env)
            then GetGreedyUnion (GetList (m_con ex_semis_only) SEMI 2 3)
            else GetUnion (GetList (m_con ex_semis_only) SEMI 2 3))
           \<union> (m_capturedSet ex_semis_only 2 \<union> m_capturedSet ex_semis_only 3) = {5}"
    by (simp add: ex_defs con_defs GetGreedyUnion_def)
  from ProcessSemis_bounded[of ex_semis_only 2 3 ex_env] ex_semis_only_hard(1) m
  obtain s' t where
    run: "ProcessSemis ex_env 2 3 ex_semis_only = Some (Inr s')" and
    t: "or_soft_prefix (m_capturedSet ex_semis_only) (max_ors (m_param ex_env))
          [0 ..< length (soft_entries (GetList (m_con ex_semis_only) SEMI 2 3))]
          \<lparr>ps_semis = GetList (m_con ex_semis_only) SEMI 2 3,
           ps_fulls = GetList (m_con ex_semis_only) FULL 2 3, ps_added = [],
           ps_log = m_log ex_semis_only, ps_stats = m_statistics ex_semis_only\<rparr> = Some (Inr t)"
    and shape: "if L_Empty (ps_fulls t)
       then L_entries (GetList (m_con s') FULL 2 3) =
              [VC_full 2 3
                 ((if use_greedy_union (m_param ex_env)
                   then GetGreedyUnion (GetList (m_con ex_semis_only) SEMI 2 3)
                   else GetUnion (GetList (m_con ex_semis_only) SEMI 2 3))
                  \<union> (m_capturedSet ex_semis_only 2 \<union> m_capturedSet ex_semis_only 3)) VC_RULE_ALL]
       else GetList (m_con s') FULL 2 3 = ps_fulls t"
    by blast
  from ex_semis_only_or t have "L_Empty (ps_fulls t)" by auto
  with shape have "L_entries (GetList (m_con s') FULL 2 3) = [VC_full 2 3 {5} VC_RULE_ALL]"
    unfolding u by simp
  with ex_semis_only_hard(1) m run show ?thesis by blast
qed

section \<open>The precondition of the incremental build\<close>

text \<open>No step after the first statement of the incremental build fails on the assertion
  about \<open>added\<close>.\<close>

lemma UpgradeSemi_nd: "UpgradeSemi it added x y \<noteq> Inl Assert_added_disjoint"
  by (simp add: UpgradeSemi_def split: option.splits)

lemma upgrade_semi_nd: "upgrade_semi e added x y it s \<noteq> Inl Assert_added_disjoint"
  using UpgradeSemi_nd[of it added x y]
  by (auto simp: upgrade_semi_def Let_def split: sum.splits prod.splits if_splits)

lemma upgrade_semis_nd: "upgrade_semis e added x y its s \<noteq> Inl Assert_added_disjoint"
  by (induction its arbitrary: s) (auto simp: upgrade_semi_nd split: sum.splits)

lemma MergeAndShrink_pair_nd:
  "MergeAndShrink_pair e added xin yin xout yout s \<noteq> Inl Assert_added_disjoint"
  by (simp add: MergeAndShrink_pair_def Let_def upgrade_semis_nd split: prod.splits)

lemma MergeAndShrink_pairs_nd:
  "MergeAndShrink_pairs e affected added ps s \<noteq> Inl Assert_added_disjoint"
  by (induction e affected added ps s rule: MergeAndShrink_pairs.induct)
     (auto simp: Let_def MergeAndShrink_pair_nd split: sum.splits)

lemma Merge_nd: "Merge e oldGroups added s \<noteq> Inl Assert_added_disjoint"
  by (simp add: Merge_def MergeAndShrink_def Let_def MergeAndShrink_pairs_nd)

lemma AddNewFull_nd: "AddNewFull e vc s \<noteq> Inl Assert_added_disjoint"
  by (simp add: AddNewFull_def split: prod.splits)

lemma DoAnd_add_nd: "DoAnd_add e v s \<noteq> Inl Assert_added_disjoint"
  by (auto simp: DoAnd_add_def Let_def AddNewFull_nd split: VCType.splits sum.splits prod.splits)

lemma DoAnd_adds_nd: "DoAnd_adds e vs s \<noteq> Inl Assert_added_disjoint"
  by (induction vs arbitrary: s) (auto simp: DoAnd_add_nd split: sum.splits)

lemma DoAnd_loop_nd:
  "DoAnd_loop e from over to rule vc capturedSet is s \<noteq> Inl Assert_added_disjoint"
  by (induction "is" arbitrary: s) (auto simp: DoAnd_adds_nd split: sum.splits)

lemma AndClosure_nbr_nd:
  "AndClosure_nbr e vc endp_i endp_j endc_i z s \<noteq> Inl Assert_added_disjoint"
  by (simp add: AndClosure_nbr_def Let_def DoAnd_def DoAnd_loop_nd)

lemma AndClosure_nbrs_nd:
  "AndClosure_nbrs e vc endp_i endp_j endc_i zs s \<noteq> Inl Assert_added_disjoint"
  by (induction zs arbitrary: s) (auto simp: AndClosure_nbr_nd split: sum.splits)

lemma AndClosure_nd: "AndClosure e vc s \<noteq> Inl Assert_added_disjoint"
  by (auto simp: AndClosure_def AndClosure_end_def Let_def AndClosure_nbrs_nd split: sum.splits)

lemma ProcessFulls_nd: "ProcessFulls e vc s \<noteq> Inl Assert_added_disjoint"
  by (auto simp: ProcessFulls_def Let_def AndClosure_nd split: option.splits sum.splits)

lemma Combiner_Add_nd: "Combiner_Add start count cap c \<noteq> Inl Assert_added_disjoint"
  by (simp add: Combiner_Add_def Let_def split: option.splits prod.splits)

lemma nd_simps:
  "nd (Inl a) = (a \<noteq> Assert_added_disjoint)"
  "nd (Inr x) = True"
  by (simp_all add: nd_def)

lemma Search_nd_aux:
  "nd (Search forbidden captureX captureY new_semis new_semis_count old_semis_count
         filtered_count c)"
  and Search_loop_nd_aux:
  "nd (Search_loop forbidden captureX captureY new_semis new_semis_count old_semis_count
         new_conn filtered_count new_conn_count c)"
proof (induction forbidden captureX captureY new_semis new_semis_count old_semis_count
         filtered_count c
       and forbidden captureX captureY new_semis new_semis_count old_semis_count
         new_conn filtered_count new_conn_count c
       rule: Search_Search_loop.induct)
  case (1 forbidden captureX captureY new_semis new_semis_count old_semis_count filtered_count c)
  let ?I_new = "Intersect c new_semis new_semis_count"
  let ?I = "?I_new \<inter> Intersect c (new_semis + new_semis_count) old_semis_count"
  let ?cap = "(if captureX then x_capture_set c else {}) \<union> (if captureY then y_capture_set c else {})"
  let ?min = "(if ?I \<inter> x_capture_set c \<noteq> {} then x_capture_set c else {})
              \<union> (if ?I \<inter> y_capture_set c \<noteq> {} then y_capture_set c else {})"
  show ?case
  proof (cases "0 < new_semis_count \<and> ?I \<subseteq> ?cap")
    case False
    show ?thesis
    proof (cases "0 < new_semis_count")
      case False
      then show ?thesis
        by (subst Search.simps) (simp add: nd_simps)
    next
      case True
      with False show ?thesis
        by (subst Search.simps) (simp add: Let_def nd_simps split del: if_split)
    qed
  next
    case ok: True
    show ?thesis
    proof (cases "filtered_count = 0")
      case zero: True
      show ?thesis
      proof (cases "Combiner_Add new_semis (new_semis_count + old_semis_count) ?min c")
        case (Inl a)
        with ok zero Combiner_Add_nd[of new_semis "new_semis_count + old_semis_count" ?min c]
        show ?thesis
          by (subst Search.simps) (simp add: Let_def nd_simps split del: if_split)
      next
        case (Inr b)
        obtain new_t c1 where b: "(new_t, c1) = b" by (cases b) auto
        have "nd (Search_loop (forbidden \<union> ?I_new) captureX captureY new_semis new_semis_count
                    old_semis_count (new_semis + new_semis_count + old_semis_count + filtered_count)
                    1 1 (c1\<lparr>set_mem := set_mem c1 @ [new_t]\<rparr>))"
          using ok zero
          by (intro "1.IH"(1)[OF _ refl refl refl refl refl _ refl refl zero refl Inr b]) simp_all
        with ok zero Inr b show ?thesis
          by (subst Search.simps) (auto simp: Let_def split del: if_split)
      qed
    next
      case nz: False
      have "nd (Search_loop (forbidden \<union> ?I_new) captureX captureY new_semis new_semis_count
                  old_semis_count (new_semis + new_semis_count + old_semis_count + filtered_count)
                  filtered_count 0 c)"
        using ok
        by (intro "1.IH"(2)[OF _ refl refl refl refl refl _ refl refl nz]) simp_all
      with ok nz show ?thesis
        by (subst Search.simps) (simp add: Let_def split del: if_split)
    qed
  qed
next
  case (2 forbidden captureX captureY new_semis new_semis_count old_semis_count new_conn
          filtered_count new_conn_count c)
  let ?old = "new_semis + new_semis_count"
  let ?filtered = "?old + old_semis_count"
  let ?picked = "pick_allowed (mem_range c ?filtered filtered_count) forbidden (None, {})"
  let ?a = "Min (snd ?picked)"
  show ?case
  proof (cases "fst ?picked \<noteq> Some 0 \<and> snd ?picked \<noteq> {}")
    case False
    show ?thesis
    proof (cases "fst ?picked = Some 0")
      case True
      then show ?thesis
        by (subst Search_loop.simps) (simp add: Let_def nd_simps split del: if_split)
    next
      case nz: False
      with False show ?thesis
        by (subst Search_loop.simps) (simp add: Let_def nd_simps split del: if_split)
    qed
  next
    case go: True
    obtain n1 c1 where f1: "(n1, c1) = Combiner_Filter new_semis new_semis_count ?a c"
      by (cases "Combiner_Filter new_semis new_semis_count ?a c") auto
    obtain n2 c2 where f2: "(n2, c2) = Combiner_Filter ?old old_semis_count ?a c1"
      by (cases "Combiner_Filter ?old old_semis_count ?a c1") auto
    obtain n3 c3 where f3: "(n3, c3) = Combiner_Filter ?filtered filtered_count ?a c2"
      by (cases "Combiner_Filter ?filtered filtered_count ?a c2") auto
    let ?rec = "Search (insert ?a forbidden) (captureX \<and> ?a \<notin> x_capture_set c)
                  (captureY \<and> ?a \<notin> y_capture_set c) (?filtered + filtered_count) n1 n2 n3 c3"
    have rec: "nd ?rec"
      using go
      by (intro "2.IH"(1)[OF refl refl refl refl refl _ _ refl refl refl f1 f2 f3]) simp_all
    show ?thesis
    proof (cases ?rec)
      case (Inl a)
      with rec go f1[symmetric] f2[symmetric] f3[symmetric] show ?thesis
        by (subst Search_loop.simps) (auto simp: Let_def nd_simps split del: if_split)
    next
      case (Inr b)
      obtain k c4 where b: "(k, c4) = b" by (cases b) auto
      have "nd (Search_loop (insert ?a forbidden) captureX captureY new_semis new_semis_count
                  old_semis_count new_conn (filtered_count + k) (new_conn_count + k) c4)"
        using go
        by (intro "2.IH"(2)[OF refl refl refl refl refl _ _ refl refl refl f1 f2 f3 Inr b])
           simp_all
      with go f1[symmetric] f2[symmetric] f3[symmetric] Inr b[symmetric] show ?thesis
        by (subst Search_loop.simps) (auto simp: Let_def split del: if_split)
    qed
  qed
qed

lemma DoOr_nd: "DoOr caps semi_list full_list added lg stats \<noteq> Inl Assert_added_disjoint"
  using Search_nd_aux[of "{}" True True 0]
  by (auto simp: DoOr_def Let_def nd_def split: sum.splits)

lemma OrRule_nd:
  "OrRule caps vc semi_list full_list added maxOrs lg stats \<noteq> Some (Inl Assert_added_disjoint)"
  by (simp add: OrRule_def Let_def split: option.splits)

lemma or_soft_prefix_nd:
  "or_soft_prefix caps maxOrs ks t \<noteq> Some (Inl Assert_added_disjoint)"
proof (induction ks arbitrary: t)
  case Nil
  show ?case by simp
next
  case (Cons k ks)
  show ?case
    using OrRule_nd[of caps "L_entries (ps_semis t) ! k" "ps_semis t" "ps_fulls t" "ps_added t"
                       maxOrs "ps_log t"]
    by (auto simp: Let_def Cons.IH split: option.splits sum.splits)
qed

lemma ProcessSemis_nd: "ProcessSemis e xc yc s \<noteq> Some (Inl Assert_added_disjoint)"
  by (auto simp: ProcessSemis_def Let_def DoOr_nd or_soft_prefix_nd
           split: option.splits sum.splits)

lemma DoSearch_body_nd:
  "DoSearch_body e s \<noteq> Continue (Some (Inl Assert_added_disjoint))"
  by (auto simp: DoSearch_body_def ProcessSemis_nd ProcessFulls_nd split: option.splits)

lemma DoSearch_loop_nd:
  assumes "DoSearch_loop e s = Some r"
  shows "r \<noteq> Inl Assert_added_disjoint"
proof (rule DoSearch_loop.raw_induct[where P = "\<lambda>e s r. r \<noteq> Inl Assert_added_disjoint", OF _ assms])
  fix loop :: "'a env \<Rightarrow> 'a builder \<Rightarrow> (assertion + bool \<times> 'a builder) option"
    and e s r
  assume IH: "\<And>e s r. loop e s = Some r \<Longrightarrow> r \<noteq> Inl Assert_added_disjoint"
    and step: "(case DoSearch_body e s of
        Break \<Rightarrow> Some (Inr (False, s))
      | Continue None \<Rightarrow> None
      | Continue (Some (Inl a)) \<Rightarrow> Some (Inl a)
      | Continue (Some (Inr s1)) \<Rightarrow>
          if winning e s1 then Some (Inr (True, s1)) else loop e s1) = Some r"
  show "r \<noteq> Inl Assert_added_disjoint"
    using step IH DoSearch_body_nd[of e s]
    by (auto split: iteration.splits option.splits sum.splits if_splits)
qed

lemma DoSearch_nd: "DoSearch e s \<noteq> Some (Inl Assert_added_disjoint)"
  using DoSearch_loop_nd[of e s]
  by (auto simp: DoSearch_def split: option.splits sum.splits if_splits)

text \<open>
  C8.  The incremental build requires \<open>added[BLACK] \<inter> added[WHITE] = \<emptyset>\<close>: a call that
  violates it stops at once on the assertion, with no state to recover; under the
  precondition that assertion never fires, whatever else the build does.
\<close>

theorem Build_incremental_precondition:
  "(added BLACK \<inter> added WHITE \<noteq> {}
      \<longrightarrow> Build_incremental e oldGroups added lg s = Some (Inl Assert_added_disjoint))
   \<and> (added BLACK \<inter> added WHITE = {}
      \<longrightarrow> Build_incremental e oldGroups added lg s \<noteq> Some (Inl Assert_added_disjoint))"
  by (auto simp: Build_incremental_def Let_def Merge_nd DoSearch_nd split: sum.splits)

theorem Build_incremental_precondition_witness:
  "Build_incremental ex_env ex_groups (\<lambda>c. {5}) None ex_builder = Some (Inl Assert_added_disjoint)
   \<and> Build_incremental ex_env ex_groups (\<lambda>c. if c = BLACK then {5} else {6}) None ex_builder
       \<noteq> Some (Inl Assert_added_disjoint)"
  using Build_incremental_precondition[of "\<lambda>c. {5}" ex_env ex_groups None ex_builder]
        Build_incremental_precondition[of "\<lambda>c. if c = BLACK then {5} else {6}"
                                         ex_env ex_groups None ex_builder]
  by simp

section \<open>The enhanced OR\<close>

lemma grows_refl: "grows c c"
  by (simp add: grows_def)

lemma grows_trans: "grows c c1 \<Longrightarrow> grows c1 c2 \<Longrightarrow> grows c c2"
  by (auto simp: grows_def)

lemma grows_set_mem: "grows c (c'\<lparr>set_mem := m\<rparr>) = grows c c'"
  "grows (c\<lparr>set_mem := m\<rparr>) c' = grows c c'"
  by (simp_all add: grows_def)

lemma Combiner_Filter_grows: "Combiner_Filter start count a c = (n, c1) \<Longrightarrow> grows c c1"
  by (auto simp: Combiner_Filter_def Let_def grows_def)

lemma Combiner_Add_grows:
  "Combiner_Add start count cap c = Inr (U, c1) \<Longrightarrow>
   grows c c1 \<and> L_entries (oc_full_list c1) \<noteq> [] \<and> length (oc_added c1) = length (oc_added c) + 1"
  by (auto simp: Combiner_Add_def Let_def grows_def split: option.splits prod.splits if_splits
           dest: L_Add_nonempty)

lemma search_grows_simps:
  "search_grows n0 c (Inl a) = True"
  "search_grows n0 c (Inr (n, c')) = (n0 \<le> n \<and> grows c c')"
  by (simp_all add: search_grows_def)

lemma search_grows_weaken:
  "search_grows n1 c1 r \<Longrightarrow> n0 \<le> n1 \<Longrightarrow> grows c c1 \<Longrightarrow> search_grows n0 c r"
  by (auto simp: search_grows_def grows_trans split: sum.splits)

lemma Search_grows:
  "search_grows 0 c (Search forbidden captureX captureY new_semis new_semis_count old_semis_count
         filtered_count c)"
  and Search_loop_grows:
  "search_grows new_conn_count c
     (Search_loop forbidden captureX captureY new_semis new_semis_count old_semis_count
         new_conn filtered_count new_conn_count c)"
proof (induction forbidden captureX captureY new_semis new_semis_count old_semis_count
         filtered_count c
       and forbidden captureX captureY new_semis new_semis_count old_semis_count
         new_conn filtered_count new_conn_count c
       rule: Search_Search_loop.induct)
  case (1 forbidden captureX captureY new_semis new_semis_count old_semis_count filtered_count c)
  let ?I_new = "Intersect c new_semis new_semis_count"
  let ?I = "?I_new \<inter> Intersect c (new_semis + new_semis_count) old_semis_count"
  let ?cap = "(if captureX then x_capture_set c else {}) \<union> (if captureY then y_capture_set c else {})"
  let ?min = "(if ?I \<inter> x_capture_set c \<noteq> {} then x_capture_set c else {})
              \<union> (if ?I \<inter> y_capture_set c \<noteq> {} then y_capture_set c else {})"
  show ?case
  proof (cases "0 < new_semis_count \<and> ?I \<subseteq> ?cap")
    case False
    show ?thesis
    proof (cases "0 < new_semis_count")
      case False
      then show ?thesis
        by (subst Search.simps) (simp add: search_grows_simps)
    next
      case True
      with False show ?thesis
        by (subst Search.simps)
           (simp add: Let_def search_grows_simps grows_set_mem grows_refl split del: if_split)
    qed
  next
    case ok: True
    show ?thesis
    proof (cases "filtered_count = 0")
      case zero: True
      show ?thesis
      proof (cases "Combiner_Add new_semis (new_semis_count + old_semis_count) ?min c")
        case (Inl a)
        with ok zero show ?thesis
          by (subst Search.simps) (simp add: Let_def search_grows_simps split del: if_split)
      next
        case (Inr b)
        obtain new_t c1 where b: "(new_t, c1) = b" by (cases b) auto
        have g: "grows c (c1\<lparr>set_mem := set_mem c1 @ [new_t]\<rparr>)"
          using Combiner_Add_grows[of new_semis "new_semis_count + old_semis_count" ?min c new_t c1]
                Inr b by (simp add: grows_set_mem)
        have "search_grows 1 (c1\<lparr>set_mem := set_mem c1 @ [new_t]\<rparr>)
                (Search_loop (forbidden \<union> ?I_new) captureX captureY new_semis new_semis_count
                    old_semis_count (new_semis + new_semis_count + old_semis_count + filtered_count)
                    1 1 (c1\<lparr>set_mem := set_mem c1 @ [new_t]\<rparr>))"
          using ok zero
          by (intro "1.IH"(1)[OF _ refl refl refl refl refl _ refl refl zero refl Inr b]) simp_all
        from search_grows_weaken[OF this _ g]
        have "search_grows 0 c
                (Search_loop (forbidden \<union> ?I_new) captureX captureY new_semis new_semis_count
                    old_semis_count (new_semis + new_semis_count + old_semis_count + filtered_count)
                    1 1 (c1\<lparr>set_mem := set_mem c1 @ [new_t]\<rparr>))"
          by simp
        with ok zero Inr b show ?thesis
          by (subst Search.simps) (auto simp: Let_def split del: if_split)
      qed
    next
      case nz: False
      have "search_grows 0 c
              (Search_loop (forbidden \<union> ?I_new) captureX captureY new_semis new_semis_count
                  old_semis_count (new_semis + new_semis_count + old_semis_count + filtered_count)
                  filtered_count 0 c)"
        using ok
        by (intro "1.IH"(2)[OF _ refl refl refl refl refl _ refl refl nz]) simp_all
      with ok nz show ?thesis
        by (subst Search.simps) (simp add: Let_def split del: if_split)
    qed
  qed
next
  case (2 forbidden captureX captureY new_semis new_semis_count old_semis_count new_conn
          filtered_count new_conn_count c)
  let ?old = "new_semis + new_semis_count"
  let ?filtered = "?old + old_semis_count"
  let ?picked = "pick_allowed (mem_range c ?filtered filtered_count) forbidden (None, {})"
  let ?a = "Min (snd ?picked)"
  show ?case
  proof (cases "fst ?picked \<noteq> Some 0 \<and> snd ?picked \<noteq> {}")
    case False
    show ?thesis
    proof (cases "fst ?picked = Some 0")
      case True
      then show ?thesis
        by (subst Search_loop.simps)
           (simp add: Let_def search_grows_simps grows_set_mem grows_refl split del: if_split)
    next
      case nz: False
      with False show ?thesis
        by (subst Search_loop.simps) (simp add: Let_def search_grows_simps split del: if_split)
    qed
  next
    case go: True
    obtain n1 c1 where f1: "(n1, c1) = Combiner_Filter new_semis new_semis_count ?a c"
      by (cases "Combiner_Filter new_semis new_semis_count ?a c") auto
    obtain n2 c2 where f2: "(n2, c2) = Combiner_Filter ?old old_semis_count ?a c1"
      by (cases "Combiner_Filter ?old old_semis_count ?a c1") auto
    obtain n3 c3 where f3: "(n3, c3) = Combiner_Filter ?filtered filtered_count ?a c2"
      by (cases "Combiner_Filter ?filtered filtered_count ?a c2") auto
    have g3: "grows c c3"
      using Combiner_Filter_grows[OF f1[symmetric]] Combiner_Filter_grows[OF f2[symmetric]]
            Combiner_Filter_grows[OF f3[symmetric]]
      by (blast intro: grows_trans)
    let ?rec = "Search (insert ?a forbidden) (captureX \<and> ?a \<notin> x_capture_set c)
                  (captureY \<and> ?a \<notin> y_capture_set c) (?filtered + filtered_count) n1 n2 n3 c3"
    have rec: "search_grows 0 c3 ?rec"
      using go
      by (intro "2.IH"(1)[OF refl refl refl refl refl _ _ refl refl refl f1 f2 f3]) simp_all
    show ?thesis
    proof (cases ?rec)
      case (Inl a)
      with go f1[symmetric] f2[symmetric] f3[symmetric] show ?thesis
        by (subst Search_loop.simps) (auto simp: Let_def search_grows_simps split del: if_split)
    next
      case (Inr b)
      obtain k c4 where b: "(k, c4) = b" by (cases b) auto
      from rec Inr b have g4: "grows c3 c4" by (auto simp: search_grows_simps)
      have "search_grows (new_conn_count + k) c4
              (Search_loop (insert ?a forbidden) captureX captureY new_semis new_semis_count
                  old_semis_count new_conn (filtered_count + k) (new_conn_count + k) c4)"
        using go
        by (intro "2.IH"(2)[OF refl refl refl refl refl _ _ refl refl refl f1 f2 f3 Inr b])
           simp_all
      from search_grows_weaken[OF this _ grows_trans[OF g3 g4]]
      have "search_grows new_conn_count c
              (Search_loop (insert ?a forbidden) captureX captureY new_semis new_semis_count
                  old_semis_count new_conn (filtered_count + k) (new_conn_count + k) c4)"
        by simp
      with go f1[symmetric] f2[symmetric] f3[symmetric] Inr b[symmetric] show ?thesis
        by (subst Search_loop.simps) (auto simp: Let_def split del: if_split)
    qed
  qed
qed

lemma fold_inter: "fold (\<lambda>s I. I \<inter> s) xs A = A \<inter> \<Inter> (set xs)"
  by (induction xs arbitrary: A) auto

lemma Intersect_Inter: "Intersect c start count = \<Inter> (set (mem_range c start count))"
  by (simp add: Intersect_def fold_inter)

lemma inter_carriers_Inter: "inter_carriers vs = \<Inter> (VC_Carrier ` set vs)"
  by (induction vs) (auto simp: inter_carriers_def)

lemma DoOr_first_add:
  assumes empty: "L_Empty full_list"
    and unprocessed: "list_ex (\<lambda>v. \<not> VC_Processed v) (L_entries semi_list)"
    and inter: "HardIntersection semi_list
                  \<subseteq> captured_sets (L_X semi_list) \<union> captured_sets (L_Y semi_list)"
  shows "\<exists>c0 m f. DoOr captured_sets semi_list full_list added lg stats =
           (case Combiner_Add 0 (length (L_entries semi_list)) m c0 of
              Inl a \<Rightarrow> Inl a
            | Inr (new_t, c1) \<Rightarrow>
                (case Search_loop f True True 0
                        (length (filter (\<lambda>v. \<not> VC_Processed v) (L_entries semi_list)))
                        (length (filter VC_Processed (L_entries semi_list)))
                        (length (L_entries semi_list)) 1 1
                        (c1\<lparr>set_mem := set_mem c1 @ [new_t]\<rparr>) of
                   Inl a \<Rightarrow> Inl a
                 | Inr (n, c2) \<Rightarrow>
                     Inr (0 < n, oc_full_list c2, oc_added c2, oc_log c2, oc_stats c2)))
         \<and> oc_added c0 = added \<and> oc_full_list c0 = full_list"
proof -
  define new where "new = map VC_Carrier (filter (\<lambda>v. \<not> VC_Processed v) (L_entries semi_list))"
  define old where "old = map VC_Carrier (filter VC_Processed (L_entries semi_list))"
  define c0 where "c0 = \<lparr>oc_x = L_X semi_list, oc_y = L_Y semi_list,
               x_capture_set = captured_sets (L_X semi_list),
               y_capture_set = captured_sets (L_Y semi_list),
               oc_full_list = full_list, oc_added = added, oc_log = lg, oc_stats = stats,
               set_mem = new @ old @ []\<rparr>"
  have pos: "0 < length new"
    using unprocessed by (auto simp: new_def list_ex_iff filter_empty_conv)
  have len: "length new + length old = length (L_entries semi_list)"
    unfolding new_def old_def length_map
    using sum_length_filter_compl[of "\<lambda>v. \<not> VC_Processed v" "L_entries semi_list"] by simp
  have r1: "mem_range c0 0 (length new) = new"
    and r2: "mem_range c0 (length new) (length old) = old"
    by (simp_all add: mem_range_def c0_def)
  have I: "Intersect c0 0 (length new) \<inter> Intersect c0 (length new) (length old)
             = HardIntersection semi_list"
    unfolding Intersect_Inter HardIntersection_def inter_carriers_Inter
    using r1 r2 by (auto simp: new_def old_def)
  have sub: "Intersect c0 0 (length new) \<inter> Intersect c0 (length new) (length old)
             \<subseteq> x_capture_set c0 \<union> y_capture_set c0"
    unfolding I using inter by (simp add: c0_def)
  have filt: "map VC_Carrier (L_entries full_list) = []"
    using empty by (simp add: L_Empty_def)
  define m where "m = (if HardIntersection semi_list \<inter> x_capture_set c0 \<noteq> {}
                    then x_capture_set c0 else {})
                   \<union> (if HardIntersection semi_list \<inter> y_capture_set c0 \<noteq> {}
                      then y_capture_set c0 else {})"
  define f where "f = {} \<union> Intersect c0 0 (length new)"
  have ln: "length (filter (\<lambda>v. \<not> VC_Processed v) (L_entries semi_list)) = length new"
    and lo: "length (filter VC_Processed (L_entries semi_list)) = length old"
    by (simp_all add: new_def old_def)
  have D: "DoOr captured_sets semi_list full_list added lg stats =
          (case Search {} True True 0 (length new) (length old) 0 c0 of
             Inl a \<Rightarrow> Inl a
           | Inr (n, c1) \<Rightarrow> Inr (0 < n, oc_full_list c1, oc_added c1, oc_log c1, oc_stats c1))"
    using pos by (simp add: DoOr_def Let_def filt new_def old_def c0_def)
  have S: "Search {} True True 0 (length new) (length old) 0 c0 =
          (case Combiner_Add 0 (length new + length old) m c0 of
             Inl a \<Rightarrow> Inl a
           | Inr (new_t, c1) \<Rightarrow>
               Search_loop f True True 0 (length new)
                 (length old) (length new + length old) 1 1
                 (c1\<lparr>set_mem := set_mem c1 @ [new_t]\<rparr>))"
    using pos sub unfolding m_def f_def
    by (subst Search.simps) (simp add: Let_def I split del: if_split)
  have "DoOr captured_sets semi_list full_list added lg stats =
          (case Combiner_Add 0 (length (L_entries semi_list)) m c0 of
             Inl a \<Rightarrow> Inl a
           | Inr (new_t, c1) \<Rightarrow>
               (case Search_loop f True True 0
                       (length (filter (\<lambda>v. \<not> VC_Processed v) (L_entries semi_list)))
                       (length (filter VC_Processed (L_entries semi_list)))
                       (length (L_entries semi_list)) 1 1
                       (c1\<lparr>set_mem := set_mem c1 @ [new_t]\<rparr>) of
                  Inl a \<Rightarrow> Inl a
                | Inr (n, c2) \<Rightarrow>
                    Inr (0 < n, oc_full_list c2, oc_added c2, oc_log c2, oc_stats c2)))"
    unfolding D S ln lo len[symmetric]
    by (cases "Combiner_Add 0 (length new + length old) m c0") auto
  moreover have "oc_added c0 = added \<and> oc_full_list c0 = full_list"
    by (simp add: c0_def)
  ultimately show ?thesis by blast
qed

lemma UNIV_not_small: "card A < 256 \<Longrightarrow> \<not> (UNIV :: 8 word set) \<subseteq> A"
proof
  assume "card A < 256" "(UNIV :: 8 word set) \<subseteq> A"
  then have "A = UNIV" by auto
  then have "card A = 256" by (simp add: card_word)
  with \<open>card A < 256\<close> show False by simp
qed

lemmas or_eval = Let_def ex_two_semis_def ex_no_full_def ex_full_46_def ex_stats_def
  ex_semis_11_def ex_shared_caps_def
  VC_semi_def VC_full_def Intersect_def mem_range_def
  Combiner_Add_def Combiner_Filter_def L_Add_def IsSupersetOfAny_def insert_pos_def
  log_push_def log_push_all_def UNIV_not_small insert_Diff_if

lemma ex_two_semis_facts:
  "list_ex (\<lambda>v. \<not> VC_Processed v) (L_entries ex_two_semis)"
  "HardIntersection ex_two_semis = {}"
  by (simp_all add: ex_two_semis_def VC_semi_def HardIntersection_def inter_carriers_def)

text \<open>
  C3, as stated: on a Semi list with an unprocessed Semi and an empty intersection, the
  enhanced OR adds at least one Full.  It fails beside a Full that is already in the list:
  the search starts from the carriers of the Fulls it is given, forbids their cells one by
  one, and adds nothing when no union of Semis avoids them.
\<close>

theorem DoOr_adds_nothing_beside_a_full:
  "list_ex (\<lambda>v. \<not> VC_Processed v) (L_entries ex_two_semis)
   \<and> HardIntersection ex_two_semis = {}
   \<and> DoOr (\<lambda>p. {}) ex_two_semis ex_full_46 [] None ex_stats
       = Inr (False, ex_full_46, [], None, ex_stats)"
proof -
  have "DoOr (\<lambda>p. {}) ex_two_semis ex_full_46 [] None ex_stats
          = Inr (False, ex_full_46, [], None, ex_stats)"
    by code_simp
  with ex_two_semis_facts show ?thesis by simp
qed

lemma ex_no_full_run:
  "case DoOr (\<lambda>p. {}) ex_two_semis ex_no_full [] None ex_stats of
     Inl a \<Rightarrow> False
   | Inr (good, fulls', added', lg', st') \<Rightarrow> map VC_Carrier added' = [{4, 5, 6, 7}]"
  apply (simp add: DoOr_def or_eval)
  apply (subst Search.simps, simp add: or_eval)
  apply (subst Search_loop.simps, simp add: or_eval)
  apply (subst Search.simps, simp add: or_eval)
  apply (subst Search_loop.simps, simp add: or_eval)
  apply (subst Search.simps, simp add: or_eval)
  apply (subst Search_loop.simps, simp add: or_eval)
  apply (subst Search.simps, simp add: or_eval)
  apply (subst Search_loop.simps, simp add: or_eval)
  apply (subst Search.simps, simp add: or_eval)
  apply (subst Search_loop.simps, simp add: or_eval)
  apply auto
  done

text \<open>
  C3, amended.  Enhanced OR (\<open>max_ors \<ge> 16\<close>): for a Semi list between \<open>x\<close> and \<open>y\<close> with
  at least one unprocessed Semi and the intersection of all its carriers inside
  \<open>cap[x] \<union> cap[y]\<close>, if the Full list between \<open>x\<close> and \<open>y\<close> is empty when the combiner
  starts, then a combiner that returns has added at least one Full: its search result is
  true, the Full list is not empty and \<open>added\<close> has grown.
\<close>

theorem DoOr_adds_a_full:
  assumes empty: "L_Empty full_list"
    and unprocessed: "list_ex (\<lambda>v. \<not> VC_Processed v) (L_entries semi_list)"
    and inter: "HardIntersection semi_list
                  \<subseteq> captured_sets (L_X semi_list) \<union> captured_sets (L_Y semi_list)"
    and run: "DoOr captured_sets semi_list full_list added lg stats
                = Inr (good, fulls', added', lg', stats')"
  shows "good \<and> \<not> L_Empty fulls' \<and> length added < length added'"
proof -
  from DoOr_first_add[OF empty unprocessed inter, of added lg stats] obtain c0 m f where
    eq: "DoOr captured_sets semi_list full_list added lg stats =
           (case Combiner_Add 0 (length (L_entries semi_list)) m c0 of
              Inl a \<Rightarrow> Inl a
            | Inr (new_t, c1) \<Rightarrow>
                (case Search_loop f True True 0
                        (length (filter (\<lambda>v. \<not> VC_Processed v) (L_entries semi_list)))
                        (length (filter VC_Processed (L_entries semi_list)))
                        (length (L_entries semi_list)) 1 1
                        (c1\<lparr>set_mem := set_mem c1 @ [new_t]\<rparr>) of
                   Inl a \<Rightarrow> Inl a
                 | Inr (n, c2) \<Rightarrow>
                     Inr (0 < n, oc_full_list c2, oc_added c2, oc_log c2, oc_stats c2)))"
    and c0: "oc_added c0 = added"
    by (elim exE conjE) (rule that, assumption+)
  from run eq obtain new_t c1 where
    add: "Combiner_Add 0 (length (L_entries semi_list)) m c0 = Inr (new_t, c1)"
    by (cases "Combiner_Add 0 (length (L_entries semi_list)) m c0") auto
  let ?c1 = "c1\<lparr>set_mem := set_mem c1 @ [new_t]\<rparr>"
  let ?loop = "Search_loop f True True 0
                 (length (filter (\<lambda>v. \<not> VC_Processed v) (L_entries semi_list)))
                 (length (filter VC_Processed (L_entries semi_list)))
                 (length (L_entries semi_list)) 1 1 ?c1"
  from run eq add obtain n c2 where
    loop: "?loop = Inr (n, c2)" and
    res: "good = (0 < n)" "fulls' = oc_full_list c2" "added' = oc_added c2"
    by (cases ?loop) auto
  from Search_loop_grows[of 1 ?c1 f True True 0
         "length (filter (\<lambda>v. \<not> VC_Processed v) (L_entries semi_list))"
         "length (filter VC_Processed (L_entries semi_list))"
         "length (L_entries semi_list)" 1]
  have n: "1 \<le> n" and g: "grows ?c1 c2"
    unfolding loop by (simp_all add: search_grows_simps)
  from Combiner_Add_grows[OF add] c0
  have "L_entries (oc_full_list ?c1) \<noteq> []" "length (oc_added ?c1) = length added + 1"
    by simp_all
  with g have "L_entries (oc_full_list c2) \<noteq> []" "length added < length (oc_added c2)"
    by (auto simp: grows_def)
  with n res show ?thesis by (simp add: L_Empty_def)
qed

theorem DoOr_adds_a_full_witness:
  "L_Empty ex_no_full
   \<and> list_ex (\<lambda>v. \<not> VC_Processed v) (L_entries ex_two_semis)
   \<and> HardIntersection ex_two_semis \<subseteq> {} \<union> {}
   \<and> (\<exists>good fulls' added' lg' st'.
         DoOr (\<lambda>p. {}) ex_two_semis ex_no_full [] None ex_stats
           = Inr (good, fulls', added', lg', st')
         \<and> good \<and> \<not> L_Empty fulls' \<and> 0 < length added')"
proof -
  have h1: "L_Empty ex_no_full"
    by (simp add: L_Empty_def ex_no_full_def)
  have h3: "HardIntersection ex_two_semis \<subseteq> {} \<union> {}"
    using ex_two_semis_facts(2) by simp
  obtain good fulls' added' lg' st' where
    run: "DoOr (\<lambda>p. {}) ex_two_semis ex_no_full [] None ex_stats
            = Inr (good, fulls', added', lg', st')"
    using ex_no_full_run by (auto split: sum.splits)
  from DoOr_adds_a_full[OF h1 ex_two_semis_facts(1) h3 run]
  have "good \<and> \<not> L_Empty fulls' \<and> 0 < length added'"
    by simp
  with h1 ex_two_semis_facts(1) h3 run show ?thesis
    by (intro conjI exI[of _ good] exI[of _ fulls'] exI[of _ added'] exI[of _ lg'] exI[of _ st'])
       simp_all
qed

text \<open>With captured sets of the two endpoints that share a cell, the add of the enhanced
  OR can be rejected: the assertion in \<open>Add\<close> fires.\<close>

lemma DoOr_assertion_on_shared_capture:
  "DoOr ex_shared_caps ex_semis_11 ex_no_full [] None ex_stats = Inl Assert_enhanced_or_add"
  apply (simp add: DoOr_def or_eval)
  apply (subst Search.simps, simp add: or_eval)
  apply (subst Search_loop.simps, simp add: or_eval)
  apply (subst Search.simps, simp add: or_eval)
  done

section \<open>The connection the AND closure derives from two disjoint Fulls\<close>

lemma pair_key_eq_iff: "pair_key a b = pair_key c d \<longleftrightarrow> {a, b} = {c, d}"
  by (auto simp: pair_key_def min_def max_def doubleton_eq_iff split: if_splits)

lemma pair_key_min_max [simp]: "pair_key (min a b) (max a b) = pair_key a b"
  by (auto simp: pair_key_def min_def max_def)

lemma GetList_min_max [simp]: "GetList con t (min a b) (max a b) = GetList con t a b"
  by (simp add: GetList_def)

lemma IsSupersetOfAny_iff:
  "IsSupersetOfAny l C \<longleftrightarrow> (\<exists>v \<in> set (L_entries l). VC_Carrier v \<subseteq> C)"
  by (simp add: IsSupersetOfAny_def list_ex_iff)

lemma L_Add_entries:
  assumes "L_Add l vc lg = (r, l', lg')"
  shows "r = ADD_FAILED \<and> l' = l \<and> IsSupersetOfAny l (VC_Carrier vc)
       \<or> r \<noteq> ADD_FAILED
         \<and> set (L_entries l') = insert vc {v \<in> set (L_entries l). \<not> VC_Carrier vc \<subseteq> VC_Carrier v}"
proof (cases "IsSupersetOfAny l (VC_Carrier vc)")
  case True
  with assms show ?thesis by (simp add: L_Add_def)
next
  case False
  define kept where "kept = filter (\<lambda>v. \<not> VC_Carrier vc \<subseteq> VC_Carrier v) (L_entries l)"
  define pos where "pos = insert_pos kept vc"
  from assms False have r: "r \<noteq> ADD_FAILED" and
    l': "L_entries l' = take pos kept @ [vc] @ drop pos kept"
    by (auto simp: L_Add_def Let_def kept_def pos_def split: if_splits)
  have "set (take pos kept @ [vc] @ drop pos kept) = insert vc (set kept)"
    using set_append[of "take pos kept" "drop pos kept"] by auto
  with r l' show ?thesis by (auto simp: kept_def)
qed

lemma L_Add_keeps:
  assumes "L_Add l vc lg = (r, l', lg')" and "IsSupersetOfAny l C"
  shows "IsSupersetOfAny l' C"
proof -
  from assms(2) obtain w where w: "w \<in> set (L_entries l)" "VC_Carrier w \<subseteq> C"
    by (auto simp: IsSupersetOfAny_iff)
  from L_Add_entries[OF assms(1)] show ?thesis
  proof
    assume "r = ADD_FAILED \<and> l' = l \<and> IsSupersetOfAny l (VC_Carrier vc)"
    with assms(2) show ?thesis by simp
  next
    assume a: "r \<noteq> ADD_FAILED
         \<and> set (L_entries l') = insert vc {v \<in> set (L_entries l). \<not> VC_Carrier vc \<subseteq> VC_Carrier v}"
    show ?thesis
    proof (cases "VC_Carrier vc \<subseteq> VC_Carrier w")
      case True
      with a w show ?thesis unfolding IsSupersetOfAny_iff by blast
    next
      case False
      with a w show ?thesis unfolding IsSupersetOfAny_iff by blast
    qed
  qed
qed

lemma L_Add_covers:
  assumes "L_Add l vc lg = (r, l', lg')"
  shows "IsSupersetOfAny l' (VC_Carrier vc)"
  using L_Add_entries[OF assms] unfolding IsSupersetOfAny_iff by auto


lemma IsSupersetOfAny_mono: "IsSupersetOfAny l A \<Longrightarrow> A \<subseteq> B \<Longrightarrow> IsSupersetOfAny l B"
  unfolding IsSupersetOfAny_iff by blast

lemma captains_ok_nbs: "m_nbs s' = m_nbs s \<Longrightarrow> captains_ok e s' = captains_ok e s"
  by (simp add: captains_ok_def)

lemma captains_ok_PushFull: "captains_ok e s \<Longrightarrow> captains_ok e (PushFull e v s)"
  by (auto simp: captains_ok_def PushFull_def Let_def)

lemma and_keeps_refl: "and_keeps e s s"
  by (simp add: and_keeps_def)

lemma and_keeps_trans: "and_keeps e s s1 \<Longrightarrow> and_keeps e s1 s2 \<Longrightarrow> and_keeps e s s2"
  unfolding and_keeps_def by (intro conjI allI impI) (simp, blast+)

lemma AddNewFull_result:
  assumes "AddNewFull e vc s = Inr (ok, s')"
  shows "\<not> ok \<and> s' = s
           \<and> IsSupersetOfAny (GetList (m_con s) FULL (VC_X vc) (VC_Y vc)) (VC_Carrier vc)
       \<or> ok \<and> (\<exists>r l' lg1 lg2.
              L_Add (GetList (m_con s) FULL (VC_X vc) (VC_Y vc)) vc (m_log s) = (r, l', lg1)
            \<and> r \<noteq> ADD_FAILED
            \<and> s' = PushFull e vc
                     (s\<lparr>m_con := SetList (SetList (m_con s) FULL (VC_X vc) (VC_Y vc) l')
                                   SEMI (VC_X vc) (VC_Y vc)
                                   ((GetList (m_con s) SEMI (VC_X vc) (VC_Y vc))
                                      \<lparr>L_entries := filter (\<lambda>v. \<not> VC_Carrier vc \<subseteq> VC_Carrier v)
                                         (L_entries (GetList (m_con s) SEMI (VC_X vc) (VC_Y vc)))\<rparr>),
                        m_log := lg2\<rparr>))"
proof -
  from assms have ty: "GetType vc = FULL"
    by (auto simp: AddNewFull_def split: if_splits)
  obtain r l' lg1 where
    add: "L_Add (GetList (m_con s) FULL (VC_X vc) (VC_Y vc)) vc (m_log s) = (r, l', lg1)"
    by (cases "L_Add (GetList (m_con s) FULL (VC_X vc) (VC_Y vc)) vc (m_log s)") auto
  then have vadd: "VCSet_Add (m_con s) vc (m_log s) =
                     (r, SetList (m_con s) FULL (VC_X vc) (VC_Y vc) l', lg1)"
    by (simp add: VCSet_Add_def ty)
  show ?thesis
  proof (cases "r = ADD_FAILED")
    case True
    with assms ty vadd have "\<not> ok \<and> s' = s" by (simp add: AddNewFull_def)
    moreover from L_Add_entries[OF add] True
    have "IsSupersetOfAny (GetList (m_con s) FULL (VC_X vc) (VC_Y vc)) (VC_Carrier vc)" by simp
    ultimately show ?thesis by simp
  next
    case False
    with assms ty vadd show ?thesis
      by (auto simp: AddNewFull_def add L_RemoveSuperSetsOf_def GetList_SetList)
  qed
qed

lemma AddNewFull_keeps:
  assumes "AddNewFull e vc s = Inr (ok, s')"
  shows "and_keeps e s s'"
    and "IsSupersetOfAny (GetList (m_con s') FULL (VC_X vc) (VC_Y vc)) (VC_Carrier vc)"
proof -
  from AddNewFull_result[OF assms]
  have "and_keeps e s s'
        \<and> IsSupersetOfAny (GetList (m_con s') FULL (VC_X vc) (VC_Y vc)) (VC_Carrier vc)"
  proof
    assume "\<not> ok \<and> s' = s
           \<and> IsSupersetOfAny (GetList (m_con s) FULL (VC_X vc) (VC_Y vc)) (VC_Carrier vc)"
    then show ?thesis by (simp add: and_keeps_refl)
  next
    assume "ok \<and> (\<exists>r l' lg1 lg2.
              L_Add (GetList (m_con s) FULL (VC_X vc) (VC_Y vc)) vc (m_log s) = (r, l', lg1)
            \<and> r \<noteq> ADD_FAILED
            \<and> s' = PushFull e vc
                     (s\<lparr>m_con := SetList (SetList (m_con s) FULL (VC_X vc) (VC_Y vc) l')
                                   SEMI (VC_X vc) (VC_Y vc)
                                   ((GetList (m_con s) SEMI (VC_X vc) (VC_Y vc))
                                      \<lparr>L_entries := filter (\<lambda>v. \<not> VC_Carrier vc \<subseteq> VC_Carrier v)
                                         (L_entries (GetList (m_con s) SEMI (VC_X vc) (VC_Y vc)))\<rparr>),
                        m_log := lg2\<rparr>))"
    then obtain r l' lg1 lg2 where
      add: "L_Add (GetList (m_con s) FULL (VC_X vc) (VC_Y vc)) vc (m_log s) = (r, l', lg1)" and
      s': "s' = PushFull e vc
                     (s\<lparr>m_con := SetList (SetList (m_con s) FULL (VC_X vc) (VC_Y vc) l')
                                   SEMI (VC_X vc) (VC_Y vc)
                                   ((GetList (m_con s) SEMI (VC_X vc) (VC_Y vc))
                                      \<lparr>L_entries := filter (\<lambda>v. \<not> VC_Carrier vc \<subseteq> VC_Carrier v)
                                         (L_entries (GetList (m_con s) SEMI (VC_X vc) (VC_Y vc)))\<rparr>),
                        m_log := lg2\<rparr>)"
      by blast
    have full: "GetList (m_con s') FULL x y =
                  (if pair_key (VC_X vc) (VC_Y vc) = pair_key x y then l'
                   else GetList (m_con s) FULL x y)" for x y
      by (simp add: s' PushFull_fields GetList_SetList)
    have semi: "L_entries (GetList (m_con s') SEMI x y) =
                  (if pair_key (VC_X vc) (VC_Y vc) = pair_key x y
                   then filter (\<lambda>v. \<not> VC_Carrier vc \<subseteq> VC_Carrier v)
                          (L_entries (GetList (m_con s) SEMI x y))
                   else L_entries (GetList (m_con s) SEMI x y))" for x y
    proof (cases "pair_key (VC_X vc) (VC_Y vc) = pair_key x y")
      case True
      then have "GetList (m_con s) SEMI x y = GetList (m_con s) SEMI (VC_X vc) (VC_Y vc)"
        by (simp add: GetList_def)
      with True show ?thesis by (simp add: s' PushFull_fields GetList_SetList)
    next
      case False
      then show ?thesis by (simp add: s' PushFull_fields GetList_SetList)
    qed
    have cov: "IsSupersetOfAny l' (VC_Carrier vc)" by (rule L_Add_covers[OF add])
    have cap: "m_capturedSet s' = m_capturedSet s" by (simp add: s' PushFull_fields)
    have capt: "captains_ok e s \<Longrightarrow> captains_ok e s'"
      unfolding s' by (rule captains_ok_PushFull) (simp add: captains_ok_def)
    have f: "IsSupersetOfAny (GetList (m_con s') FULL x y) C"
      if "IsSupersetOfAny (GetList (m_con s) FULL x y) C" for x y C
    proof (cases "pair_key (VC_X vc) (VC_Y vc) = pair_key x y")
      case True
      then have "GetList (m_con s) FULL x y = GetList (m_con s) FULL (VC_X vc) (VC_Y vc)"
        by (simp add: GetList_def)
      with that L_Add_keeps[OF add, of C] True show ?thesis by (simp add: full)
    next
      case False
      with that show ?thesis by (simp add: full)
    qed
    have g: "IsSupersetOfAny (GetList (m_con s') FULL x y) C
             \<or> IsSupersetOfAny (GetList (m_con s') SEMI x y) C"
      if "IsSupersetOfAny (GetList (m_con s) SEMI x y) C" for x y C
    proof (cases "pair_key (VC_X vc) (VC_Y vc) = pair_key x y")
      case True
      from that obtain w where w: "w \<in> set (L_entries (GetList (m_con s) SEMI x y))"
        "VC_Carrier w \<subseteq> C" by (auto simp: IsSupersetOfAny_iff)
      show ?thesis
      proof (cases "VC_Carrier vc \<subseteq> VC_Carrier w")
        case sub: True
        with w have "VC_Carrier vc \<subseteq> C" by simp
        from IsSupersetOfAny_mono[OF cov this] True show ?thesis by (simp add: full)
      next
        case False
        with w True have "IsSupersetOfAny (GetList (m_con s') SEMI x y) C"
          unfolding IsSupersetOfAny_iff semi by auto
        then show ?thesis by simp
      qed
    next
      case False
      with that have "IsSupersetOfAny (GetList (m_con s') SEMI x y) C"
        unfolding IsSupersetOfAny_iff semi by simp
      then show ?thesis by simp
    qed
    have keeps: "and_keeps e s s'"
      unfolding and_keeps_def using cap capt f g by blast
    from cov have "IsSupersetOfAny (GetList (m_con s') FULL (VC_X vc) (VC_Y vc)) (VC_Carrier vc)"
      by (simp add: full)
    with keeps show ?thesis by simp
  qed
  then show "and_keeps e s s'"
    and "IsSupersetOfAny (GetList (m_con s') FULL (VC_X vc) (VC_Y vc)) (VC_Carrier vc)"
    by simp_all
qed


lemma AddNewSemi_keeps:
  assumes "AddNewSemi vc s = (ok, s')"
  shows "and_keeps e s s'"
    and "IsSupersetOfAny (GetList (m_con s') FULL (VC_X vc) (VC_Y vc)) (VC_Carrier vc)
         \<or> IsSupersetOfAny (GetList (m_con s') SEMI (VC_X vc) (VC_Y vc)) (VC_Carrier vc)"
proof -
  obtain r l' lg1 where
    add: "L_Add (GetList (m_con s) SEMI (VC_X vc) (VC_Y vc)) vc (m_log s) = (r, l', lg1)"
    by (cases "L_Add (GetList (m_con s) SEMI (VC_X vc) (VC_Y vc)) vc (m_log s)") auto
  have "and_keeps e s s'
        \<and> (IsSupersetOfAny (GetList (m_con s') FULL (VC_X vc) (VC_Y vc)) (VC_Carrier vc)
           \<or> IsSupersetOfAny (GetList (m_con s') SEMI (VC_X vc) (VC_Y vc)) (VC_Carrier vc))"
  proof (cases "IsSupersetOfAny (GetList (m_con s) FULL (VC_X vc) (VC_Y vc)) (VC_Carrier vc)")
    case True
    with assms have "s' = s" by (simp add: AddNewSemi_def Let_def)
    with True show ?thesis by (simp add: and_keeps_refl)
  next
    case nf: False
    show ?thesis
    proof (cases "r = ADD_FAILED")
      case True
      with assms nf add have "s' = s" by (simp add: AddNewSemi_def Let_def)
      moreover from L_Add_entries[OF add] True
      have "IsSupersetOfAny (GetList (m_con s) SEMI (VC_X vc) (VC_Y vc)) (VC_Carrier vc)" by simp
      ultimately show ?thesis by (simp add: and_keeps_refl)
    next
      case False
      with assms nf add have
        s': "s' = s\<lparr>m_con := SetList (m_con s) SEMI (VC_X vc) (VC_Y vc) l',
                     m_log := lg1,
                     m_semis_queue := SemiEndsQueue_Push (VC_X vc, VC_Y vc) (m_semis_queue s)\<rparr>"
        by (simp add: AddNewSemi_def Let_def)
      have full: "GetList (m_con s') FULL x y = GetList (m_con s) FULL x y" for x y
        by (simp add: s' GetList_SetList)
      have semi: "GetList (m_con s') SEMI x y =
                    (if pair_key (VC_X vc) (VC_Y vc) = pair_key x y then l'
                     else GetList (m_con s) SEMI x y)" for x y
        by (simp add: s' GetList_SetList)
      have cov: "IsSupersetOfAny l' (VC_Carrier vc)" by (rule L_Add_covers[OF add])
      have cap: "m_capturedSet s' = m_capturedSet s" by (simp add: s')
      have capt: "captains_ok e s \<Longrightarrow> captains_ok e s'"
        by (simp add: captains_ok_def s')
      have g: "IsSupersetOfAny (GetList (m_con s') SEMI x y) C"
        if "IsSupersetOfAny (GetList (m_con s) SEMI x y) C" for x y C
      proof (cases "pair_key (VC_X vc) (VC_Y vc) = pair_key x y")
        case True
        then have "GetList (m_con s) SEMI x y = GetList (m_con s) SEMI (VC_X vc) (VC_Y vc)"
          by (simp add: GetList_def)
        with that L_Add_keeps[OF add, of C] True show ?thesis by (simp add: semi)
      next
        case False
        with that show ?thesis by (simp add: semi)
      qed
      have keeps: "and_keeps e s s'"
        unfolding and_keeps_def using cap capt g by (auto simp: full)
      from cov have "IsSupersetOfAny (GetList (m_con s') SEMI (VC_X vc) (VC_Y vc)) (VC_Carrier vc)"
        by (simp add: semi)
      with keeps show ?thesis by simp
    qed
  qed
  then show "and_keeps e s s'"
    and "IsSupersetOfAny (GetList (m_con s') FULL (VC_X vc) (VC_Y vc)) (VC_Carrier vc)
         \<or> IsSupersetOfAny (GetList (m_con s') SEMI (VC_X vc) (VC_Y vc)) (VC_Carrier vc)"
    by simp_all
qed

text \<open>An add of the AND rule never fails; what it keeps, and what it leaves behind.\<close>

lemma AddNewFull_returns: "GetType vc = FULL \<Longrightarrow> \<exists>ok s'. AddNewFull e vc s = Inr (ok, s')"
  by (auto simp: AddNewFull_def split: prod.splits)

lemma DoAnd_add_returns: "\<exists>s'. DoAnd_add e v s = Inr s'"
proof (cases "GetType v")
  case FULL
  from AddNewFull_returns[OF FULL, of e "s\<lparr>m_statistics := (m_statistics s)
        \<lparr>and_full_attempts := and_full_attempts (m_statistics s) + 1\<rparr>\<rparr>"]
  obtain ok s1 where
    "AddNewFull e v (s\<lparr>m_statistics := (m_statistics s)
        \<lparr>and_full_attempts := and_full_attempts (m_statistics s) + 1\<rparr>\<rparr>) = Inr (ok, s1)"
    by blast
  with FULL show ?thesis by (simp add: DoAnd_add_def Let_def)
next
  case SEMI
  then show ?thesis
    by (cases "AddNewSemi v (s\<lparr>m_statistics := (m_statistics s)
        \<lparr>and_semi_attempts := and_semi_attempts (m_statistics s) + 1\<rparr>\<rparr>)")
       (simp add: DoAnd_add_def Let_def)
qed

lemma and_keeps_stats:
  "m_con s' = m_con s \<Longrightarrow> m_nbs s' = m_nbs s \<Longrightarrow> m_capturedSet s' = m_capturedSet s
   \<Longrightarrow> and_keeps e s s'"
  by (simp add: and_keeps_def captains_ok_def)

lemma DoAnd_add_keeps:
  assumes "DoAnd_add e v s = Inr s'"
  shows "and_keeps e s s'"
    and "IsSupersetOfAny (GetList (m_con s') FULL (VC_X v) (VC_Y v)) (VC_Carrier v)
         \<or> GetType v = SEMI
           \<and> IsSupersetOfAny (GetList (m_con s') SEMI (VC_X v) (VC_Y v)) (VC_Carrier v)"
proof -
  have "and_keeps e s s'
      \<and> (IsSupersetOfAny (GetList (m_con s') FULL (VC_X v) (VC_Y v)) (VC_Carrier v)
         \<or> GetType v = SEMI
           \<and> IsSupersetOfAny (GetList (m_con s') SEMI (VC_X v) (VC_Y v)) (VC_Carrier v))"
  proof (cases "GetType v")
    case FULL
    define s0 where "s0 = s\<lparr>m_statistics := (m_statistics s)
        \<lparr>and_full_attempts := and_full_attempts (m_statistics s) + 1\<rparr>\<rparr>"
    from assms FULL obtain ok s1 where
      a: "AddNewFull e v s0 = Inr (ok, s1)" and
      s': "s' = (if ok then s1\<lparr>m_statistics := (m_statistics s1)
                    \<lparr>and_full_successes := and_full_successes (m_statistics s1) + 1\<rparr>\<rparr> else s1)"
      by (auto simp: DoAnd_add_def Let_def s0_def split: sum.splits)
    have k0: "and_keeps e s s0" by (rule and_keeps_stats) (simp_all add: s0_def)
    have k1: "and_keeps e s0 s1" by (rule AddNewFull_keeps(1)[OF a])
    have k2: "and_keeps e s1 s'" by (rule and_keeps_stats) (simp_all add: s')
    have c: "m_con s' = m_con s1" by (simp add: s')
    from AddNewFull_keeps(2)[OF a] c and_keeps_trans[OF and_keeps_trans[OF k0 k1] k2]
    show ?thesis by simp
  next
    case SEMI
    define s0 where "s0 = s\<lparr>m_statistics := (m_statistics s)
        \<lparr>and_semi_attempts := and_semi_attempts (m_statistics s) + 1\<rparr>\<rparr>"
    obtain ok s1 where a: "AddNewSemi v s0 = (ok, s1)" by (cases "AddNewSemi v s0") auto
    with assms SEMI have
      s': "s' = (if ok then s1\<lparr>m_statistics := (m_statistics s1)
                    \<lparr>and_semi_successes := and_semi_successes (m_statistics s1) + 1\<rparr>\<rparr> else s1)"
      by (auto simp: DoAnd_add_def Let_def s0_def)
    have k0: "and_keeps e s s0" by (rule and_keeps_stats) (simp_all add: s0_def)
    have k1: "and_keeps e s0 s1" by (rule AddNewSemi_keeps(1)[OF a])
    have k2: "and_keeps e s1 s'" by (rule and_keeps_stats) (simp_all add: s')
    have c: "m_con s' = m_con s1" by (simp add: s')
    from AddNewSemi_keeps(2)[OF a] c SEMI and_keeps_trans[OF and_keeps_trans[OF k0 k1] k2]
    show ?thesis by auto
  qed
  then show "and_keeps e s s'"
    and "IsSupersetOfAny (GetList (m_con s') FULL (VC_X v) (VC_Y v)) (VC_Carrier v)
         \<or> GetType v = SEMI
           \<and> IsSupersetOfAny (GetList (m_con s') SEMI (VC_X v) (VC_Y v)) (VC_Carrier v)"
    by simp_all
qed


lemma AddNewFull_frame:
  assumes "AddNewFull e vc s = Inr (ok, s')"
    and "pair_key (VC_X vc) (VC_Y vc) \<noteq> pair_key x y"
  shows "GetList (m_con s') t x y = GetList (m_con s) t x y"
  using AddNewFull_result[OF assms(1)] assms(2)
  by (auto simp: PushFull_fields GetList_SetList)

lemma AddNewSemi_frame:
  assumes "AddNewSemi vc s = (ok, s')"
    and "pair_key (VC_X vc) (VC_Y vc) \<noteq> pair_key x y"
  shows "GetList (m_con s') t x y = GetList (m_con s) t x y"
  using assms
  by (auto simp: AddNewSemi_def Let_def GetList_SetList split: if_splits prod.splits)

lemma DoAnd_add_frame:
  assumes "DoAnd_add e v s = Inr s'"
    and "pair_key (VC_X v) (VC_Y v) \<noteq> pair_key x y"
  shows "GetList (m_con s') t x y = GetList (m_con s) t x y"
proof (cases "GetType v")
  case FULL
  define s0 where "s0 = s\<lparr>m_statistics := (m_statistics s)
      \<lparr>and_full_attempts := and_full_attempts (m_statistics s) + 1\<rparr>\<rparr>"
  from assms(1) FULL obtain ok s1 where
    a: "AddNewFull e v s0 = Inr (ok, s1)" and c: "m_con s' = m_con s1"
    by (auto simp: DoAnd_add_def Let_def s0_def split: sum.splits if_splits)
  from AddNewFull_frame[OF a assms(2), of t] c show ?thesis by (simp add: s0_def)
next
  case SEMI
  define s0 where "s0 = s\<lparr>m_statistics := (m_statistics s)
      \<lparr>and_semi_attempts := and_semi_attempts (m_statistics s) + 1\<rparr>\<rparr>"
  obtain ok s1 where a: "AddNewSemi v s0 = (ok, s1)" by (cases "AddNewSemi v s0") auto
  with assms(1) SEMI have c: "m_con s' = m_con s1"
    by (auto simp: DoAnd_add_def Let_def s0_def split: if_splits)
  from AddNewSemi_frame[OF a assms(2), of t] c show ?thesis by (simp add: s0_def)
qed

lemma DoAnd_adds_run:
  "\<exists>s'. DoAnd_adds e vs s = Inr s' \<and> and_keeps e s s'
        \<and> (\<forall>t x y. (\<forall>v \<in> set vs. pair_key (VC_X v) (VC_Y v) \<noteq> pair_key x y)
               \<longrightarrow> GetList (m_con s') t x y = GetList (m_con s) t x y)"
proof (induction vs arbitrary: s)
  case Nil
  show ?case by (simp add: and_keeps_refl)
next
  case (Cons v vs)
  from DoAnd_add_returns[of e v s] obtain s1 where s1: "DoAnd_add e v s = Inr s1" by blast
  from Cons[of s1] obtain s' where
    r: "DoAnd_adds e vs s1 = Inr s'" and k: "and_keeps e s1 s'" and
    f: "\<forall>t x y. (\<forall>v \<in> set vs. pair_key (VC_X v) (VC_Y v) \<noteq> pair_key x y)
               \<longrightarrow> GetList (m_con s') t x y = GetList (m_con s1) t x y"
    by blast
  have "DoAnd_adds e (v # vs) s = Inr s'" using s1 r by simp
  moreover have "and_keeps e s s'"
    by (rule and_keeps_trans[OF DoAnd_add_keeps(1)[OF s1] k])
  moreover have "GetList (m_con s') t x y = GetList (m_con s) t x y"
    if "\<forall>w \<in> set (v # vs). pair_key (VC_X w) (VC_Y w) \<noteq> pair_key x y" for t x y
  proof -
    from that have a: "pair_key (VC_X v) (VC_Y v) \<noteq> pair_key x y"
      and b: "\<forall>w \<in> set vs. pair_key (VC_X w) (VC_Y w) \<noteq> pair_key x y" by simp_all
    from f b have "GetList (m_con s') t x y = GetList (m_con s1) t x y" by blast
    with DoAnd_add_frame[OF s1 a, of t] show ?thesis by simp
  qed
  ultimately show ?case by blast
qed

lemma DoAnd_emit_pair:
  "v \<in> set (DoAnd_emit from over to rule b cap i) \<Longrightarrow>
   pair_key (VC_X v) (VC_Y v) = pair_key from to"
  by (auto simp: DoAnd_emit_def Let_def AndVCs_full_def AndVCs_semi_def AndVCs_full_cap_def
        AndVCs_semi_cap_def VC_full_def VC_semi_def split: if_splits AndRule.splits)

lemma DoAnd_loop_run:
  "\<exists>s'. DoAnd_loop e from over to rule b cap is s = Inr s' \<and> and_keeps e s s'
        \<and> (\<forall>t x y. pair_key from to \<noteq> pair_key x y
               \<longrightarrow> GetList (m_con s') t x y = GetList (m_con s) t x y)"
proof (induction "is" arbitrary: s)
  case Nil
  show ?case by (simp add: and_keeps_refl)
next
  case (Cons i "is")
  from DoAnd_adds_run[of e "DoAnd_emit from over to rule b cap i" s] obtain s1 where
    s1: "DoAnd_adds e (DoAnd_emit from over to rule b cap i) s = Inr s1" and
    k1: "and_keeps e s s1" and
    f1: "\<forall>t x y. (\<forall>v \<in> set (DoAnd_emit from over to rule b cap i).
                     pair_key (VC_X v) (VC_Y v) \<noteq> pair_key x y)
               \<longrightarrow> GetList (m_con s1) t x y = GetList (m_con s) t x y"
    by blast
  from Cons[of s1] obtain s' where
    r: "DoAnd_loop e from over to rule b cap is s1 = Inr s'" and k: "and_keeps e s1 s'" and
    f: "\<forall>t x y. pair_key from to \<noteq> pair_key x y
               \<longrightarrow> GetList (m_con s') t x y = GetList (m_con s1) t x y"
    by blast
  have "DoAnd_loop e from over to rule b cap (i # is) s = Inr s'" using s1 r by simp
  moreover have "and_keeps e s s'" by (rule and_keeps_trans[OF k1 k])
  moreover have "GetList (m_con s') t x y = GetList (m_con s) t x y"
    if "pair_key from to \<noteq> pair_key x y" for t x y
  proof -
    have "\<forall>v \<in> set (DoAnd_emit from over to rule b cap i).
            pair_key (VC_X v) (VC_Y v) \<noteq> pair_key x y"
      using that by (auto dest: DoAnd_emit_pair)
    with f1 have "GetList (m_con s1) t x y = GetList (m_con s) t x y" by blast
    with f that show ?thesis by simp
  qed
  ultimately show ?case by blast
qed

lemma DoAnd_run:
  "\<exists>s'. DoAnd e from over to rule b cap old s = Inr s' \<and> and_keeps e s s'
        \<and> (\<forall>t x y. pair_key from to \<noteq> pair_key x y
               \<longrightarrow> GetList (m_con s') t x y = GetList (m_con s) t x y)"
proof (cases "L_Empty old")
  case True
  then show ?thesis by (simp add: DoAnd_def and_keeps_refl)
next
  case False
  with DoAnd_loop_run[of e "from" over to rule b cap "soft_entries old" s] show ?thesis
    by (simp add: DoAnd_def)
qed

lemma AndClosure_nbr_run:
  assumes "CaptainOf (m_groups e) z = z"
  shows "\<exists>s'. AndClosure_nbr e b over to col z s = Inr s' \<and> and_keeps e s s'
        \<and> (over \<noteq> to \<longrightarrow> (\<forall>t p. GetList (m_con s') t p over = GetList (m_con s) t p over))"
proof (cases "z = over \<or> z = to \<or> z \<in> VC_Carrier b
              \<or> SoftIntersection (GetList (m_con s) FULL z over) \<inter> VC_Carrier b
                   \<inter> - (m_capturedSet s over \<union> m_capturedSet s to \<union> m_capturedSet s z) \<noteq> {}")
  case True
  with assms have "AndClosure_nbr e b over to col z s = Inr s"
    by (auto simp: AndClosure_nbr_def Let_def)
  then show ?thesis by (simp add: and_keeps_refl)
next
  case False
  with assms have eq: "AndClosure_nbr e b over to col z s =
      DoAnd e z over to (AndRule_of col) b
        (m_capturedSet s over \<union> m_capturedSet s to \<union> m_capturedSet s z)
        (GetList (m_con s) FULL z over) s"
    by (simp add: AndClosure_nbr_def Let_def)
  from DoAnd_run[of e z over to "AndRule_of col" b
         "m_capturedSet s over \<union> m_capturedSet s to \<union> m_capturedSet s z"
         "GetList (m_con s) FULL z over" s]
  obtain s' where r: "DoAnd e z over to (AndRule_of col) b
        (m_capturedSet s over \<union> m_capturedSet s to \<union> m_capturedSet s z)
        (GetList (m_con s) FULL z over) s = Inr s'" and k: "and_keeps e s s'" and
    f: "\<forall>t x y. pair_key z to \<noteq> pair_key x y
               \<longrightarrow> GetList (m_con s') t x y = GetList (m_con s) t x y"
    by blast
  have "GetList (m_con s') t p over = GetList (m_con s) t p over" if "over \<noteq> to" for t p
  proof -
    from False that have "pair_key z to \<noteq> pair_key p over"
      by (auto simp: pair_key_eq_iff doubleton_eq_iff)
    with f show ?thesis by blast
  qed
  with eq r k show ?thesis by simp
qed

lemma AndClosure_nbrs_run:
  assumes "\<forall>z \<in> set zs. CaptainOf (m_groups e) z = z"
  shows "\<exists>s'. AndClosure_nbrs e b over to col zs s = Inr s' \<and> and_keeps e s s'
        \<and> (over \<noteq> to \<longrightarrow> (\<forall>t p. GetList (m_con s') t p over = GetList (m_con s) t p over))"
  using assms
proof (induction zs arbitrary: s)
  case Nil
  show ?case by (simp add: and_keeps_refl)
next
  case (Cons z zs)
  then have cz: "CaptainOf (m_groups e) z = z"
    and czs: "\<forall>z \<in> set zs. CaptainOf (m_groups e) z = z" by simp_all
  from AndClosure_nbr_run[OF cz, of b over to col s] obtain s1 where
    s1: "AndClosure_nbr e b over to col z s = Inr s1" and k1: "and_keeps e s s1" and
    f1: "over \<noteq> to \<longrightarrow> (\<forall>t p. GetList (m_con s1) t p over = GetList (m_con s) t p over)"
    by blast
  from Cons.IH[OF czs, of s1] obtain s' where
    r: "AndClosure_nbrs e b over to col zs s1 = Inr s'" and k: "and_keeps e s1 s'" and
    f: "over \<noteq> to \<longrightarrow> (\<forall>t p. GetList (m_con s') t p over = GetList (m_con s1) t p over)"
    by blast
  have "AndClosure_nbrs e b over to col (z # zs) s = Inr s'" using s1 r by simp
  moreover have "and_keeps e s s'" by (rule and_keeps_trans[OF k1 k])
  moreover have "over \<noteq> to \<longrightarrow> (\<forall>t p. GetList (m_con s') t p over = GetList (m_con s) t p over)"
    using f1 f by simp
  ultimately show ?case by blast
qed

lemma AndClosure_nbrs_append:
  "AndClosure_nbrs e b over to col (zs1 @ zs2) s =
     (case AndClosure_nbrs e b over to col zs1 s of
        Inl a \<Rightarrow> Inl a
      | Inr t \<Rightarrow> AndClosure_nbrs e b over to col zs2 t)"
  by (induction zs1 arbitrary: s) (simp_all split: sum.splits)

lemma DoAnd_loop_append:
  "DoAnd_loop e from over to rule b cap (pre @ post) s =
     (case DoAnd_loop e from over to rule b cap pre s of
        Inl a \<Rightarrow> Inl a
      | Inr t \<Rightarrow> DoAnd_loop e from over to rule b cap post t)"
  by (induction pre arbitrary: s) (simp_all split: sum.splits)


lemma inter_carriers_subset: "a \<in> set vs \<Longrightarrow> inter_carriers vs \<subseteq> VC_Carrier a"
  by (induction vs) (auto simp: inter_carriers_def)

lemma DoAnd_emit_disjoint_eq:
  fixes a b :: "'c::linorder VC"
  assumes "VC_Processed a"
    and "to \<notin> VC_Carrier a"
    and "VC_Carrier a \<inter> VC_Carrier b = {}"
  shows "DoAnd_emit from over to (AndRule_of endc) b capturedSet a =
           [if endc = EMPTY
            then \<lparr>VC_X = min from to, VC_Y = max from to, VC_Key = Some over,
                  VC_Carrier = VC_Carrier a \<union> VC_Carrier b \<union> {over},
                  VC_Rule = VC_RULE_AND, VC_Processed = False\<rparr>
            else \<lparr>VC_X = min from to, VC_Y = max from to, VC_Key = None,
                  VC_Carrier = VC_Carrier a \<union> VC_Carrier b,
                  VC_Rule = VC_RULE_AND, VC_Processed = False\<rparr>]"
  using assms
  by (simp add: DoAnd_emit_def AndRule_of_def AndVCs_full_def AndVCs_semi_def VC_full_def
        VC_semi_def)

lemma and_pass_derives:
  fixes s0 :: "'c::{finite,linorder} builder" and e :: "'c env" and over fr tgt :: 'c
    and a b :: "'c VC"
  defines "col \<equiv> GetColor (m_groups e) over"
  defines "cap \<equiv> m_capturedSet s0 over \<union> m_capturedSet s0 tgt \<union> m_capturedSet s0 fr"
  defines "X \<equiv> (if col = EMPTY
            then \<lparr>VC_X = min fr tgt, VC_Y = max fr tgt, VC_Key = Some over,
                  VC_Carrier = VC_Carrier a \<union> VC_Carrier b \<union> {over},
                  VC_Rule = VC_RULE_AND, VC_Processed = False\<rparr>
            else \<lparr>VC_X = min fr tgt, VC_Y = max fr tgt, VC_Key = None,
                  VC_Carrier = VC_Carrier a \<union> VC_Carrier b,
                  VC_Rule = VC_RULE_AND, VC_Processed = False\<rparr>)"
  assumes run: "AndClosure_end e b over tgt col s0 = Inr s9"
    and ok: "captains_ok e s0"
    and ne: "over \<noteq> tgt"
    and edge: "and_over_edge (m_param e) \<or> \<not> isEdge e over"
    and nb: "fr \<in> m_nbs s0 over" "fr \<noteq> over" "fr \<noteq> tgt" "fr \<notin> VC_Carrier b"
    and a: "a \<in> set (soft_entries (GetList (m_con s0) FULL fr over))"
      "VC_Processed a" "tgt \<notin> VC_Carrier a" "VC_Carrier a \<inter> VC_Carrier b = {}"
  shows "\<exists>zs1 zs2 pre post t1 t2 t3 t4.
            sorted_list_of_set (m_nbs s0 over) = zs1 @ fr # zs2
          \<and> soft_entries (GetList (m_con s0) FULL fr over) = pre @ a # post
          \<and> AndClosure_nbrs e b over tgt col zs1 s0 = Inr t1
          \<and> DoAnd_loop e fr over tgt (AndRule_of col) b cap pre t1 = Inr t2
          \<and> DoAnd_add e X t2 = Inr t3
          \<and> DoAnd_loop e fr over tgt (AndRule_of col) b cap post t3 = Inr t4
          \<and> AndClosure_nbr e b over tgt col fr t1 = Inr t4
          \<and> AndClosure_nbrs e b over tgt col zs2 t4 = Inr s9
          \<and> and_keeps e t3 s9
          \<and> (IsSupersetOfAny (GetList (m_con t3) FULL fr tgt) (VC_Carrier X)
             \<or> col = EMPTY \<and> IsSupersetOfAny (GetList (m_con t3) SEMI fr tgt) (VC_Carrier X))"
proof -
  define zs where "zs = sorted_list_of_set (m_nbs s0 over)"
  have zs_set: "set zs = m_nbs s0 over" by (simp add: zs_def)
  from nb(1) zs_set obtain zs1 zs2 where split: "zs = zs1 @ fr # zs2"
    by (metis split_list)
  have caps: "\<forall>z \<in> set zs. CaptainOf (m_groups e) z = z"
    using ok zs_set by (auto simp: captains_ok_def)
  from caps split have c1: "\<forall>z \<in> set zs1. CaptainOf (m_groups e) z = z"
    and cf: "CaptainOf (m_groups e) fr = fr"
    and c2: "\<forall>z \<in> set zs2. CaptainOf (m_groups e) z = z" by simp_all
  from run edge have whole: "AndClosure_nbrs e b over tgt col zs s0 = Inr s9"
    by (auto simp: AndClosure_end_def zs_def)
  from AndClosure_nbrs_run[OF c1, of b over tgt col s0] ne obtain t1 where
    t1: "AndClosure_nbrs e b over tgt col zs1 s0 = Inr t1" and k1: "and_keeps e s0 t1" and
    f1: "\<forall>t p. GetList (m_con t1) t p over = GetList (m_con s0) t p over"
    by blast
  define fulls where "fulls = GetList (m_con s0) FULL fr over"
  have fulls1: "GetList (m_con t1) FULL fr over = fulls" using f1 by (simp add: fulls_def)
  have cap1: "m_capturedSet t1 = m_capturedSet s0" using k1 by (simp add: and_keeps_def)
  from a(1) obtain pre post where list: "soft_entries fulls = pre @ a # post"
    unfolding fulls_def by (metis split_list)
  have nonempty: "\<not> L_Empty fulls"
    using list by (auto simp: L_Empty_def soft_entries_def)
  have "SoftIntersection fulls \<subseteq> VC_Carrier a"
    unfolding SoftIntersection_def using a(1) by (intro inter_carriers_subset) (simp add: fulls_def)
  with a(4) have soft: "SoftIntersection fulls \<inter> VC_Carrier b \<inter> D = {}" for D by blast
  have nbr: "AndClosure_nbr e b over tgt col fr t1 =
               DoAnd_loop e fr over tgt (AndRule_of col) b cap (soft_entries fulls) t1"
    using cf nb(2,3,4) soft nonempty
    by (simp add: AndClosure_nbr_def Let_def fulls1 cap1 cap_def DoAnd_def)
  from DoAnd_loop_run[of e fr over tgt "AndRule_of col" b cap pre t1] obtain t2 where
    t2: "DoAnd_loop e fr over tgt (AndRule_of col) b cap pre t1 = Inr t2" by blast
  from DoAnd_add_returns[of e X t2] obtain t3 where t3: "DoAnd_add e X t2 = Inr t3" by blast
  from DoAnd_loop_run[of e fr over tgt "AndRule_of col" b cap post t3] obtain t4 where
    t4: "DoAnd_loop e fr over tgt (AndRule_of col) b cap post t3 = Inr t4" and
    k4: "and_keeps e t3 t4" by blast
  have emit: "DoAnd_emit fr over tgt (AndRule_of col) b cap a = [X]"
    unfolding X_def by (rule DoAnd_emit_disjoint_eq[OF a(2,3,4)])
  have nbr4: "AndClosure_nbr e b over tgt col fr t1 = Inr t4"
    unfolding nbr list using t2 t3 t4 by (simp add: DoAnd_loop_append emit)
  from AndClosure_nbrs_run[OF c2, of b over tgt col t4] obtain u where
    u: "AndClosure_nbrs e b over tgt col zs2 t4 = Inr u" and ku: "and_keeps e t4 u" by blast
  from whole have "u = s9"
    unfolding split using t1 nbr4 u by (simp add: AndClosure_nbrs_append)
  with u ku have rest: "AndClosure_nbrs e b over tgt col zs2 t4 = Inr s9"
    and k9: "and_keeps e t4 s9" by simp_all
  have X_xy: "VC_X X = min fr tgt" "VC_Y X = max fr tgt"
    and X_ty: "GetType X = SEMI \<longleftrightarrow> col = EMPTY"
    by (simp_all add: X_def GetType_def)
  from DoAnd_add_keeps(2)[OF t3] have dom:
    "IsSupersetOfAny (GetList (m_con t3) FULL fr tgt) (VC_Carrier X)
     \<or> col = EMPTY \<and> IsSupersetOfAny (GetList (m_con t3) SEMI fr tgt) (VC_Carrier X)"
    by (simp add: X_xy X_ty)
  show ?thesis
    apply (rule exI[of _ zs1], rule exI[of _ zs2], rule exI[of _ pre], rule exI[of _ post])
    apply (rule exI[of _ t1], rule exI[of _ t2], rule exI[of _ t3], rule exI[of _ t4])
    using split list t1 t2 t3 t4 nbr4 rest and_keeps_trans[OF k4 k9] dom
    by (simp add: zs_def fulls_def)
qed


lemma AndClosure_end_run:
  assumes "captains_ok e s"
  shows "\<exists>s'. AndClosure_end e b over tgt col s = Inr s' \<and> and_keeps e s s'"
proof (cases "and_over_edge (m_param e) \<or> \<not> isEdge e over")
  case True
  have "\<forall>z \<in> set (sorted_list_of_set (m_nbs s over)). CaptainOf (m_groups e) z = z"
    using assms by (auto simp: captains_ok_def)
  from AndClosure_nbrs_run[OF this, of b over tgt col s] True show ?thesis
    by (auto simp: AndClosure_end_def)
next
  case False
  then show ?thesis by (simp add: AndClosure_end_def and_keeps_refl)
qed

lemma and_keeps_dom:
  assumes "and_keeps e t s'"
    and "IsSupersetOfAny (GetList (m_con t) FULL x y) C
         \<or> c \<and> IsSupersetOfAny (GetList (m_con t) SEMI x y) C"
  shows "IsSupersetOfAny (GetList (m_con s') FULL x y) C
         \<or> c \<and> IsSupersetOfAny (GetList (m_con s') SEMI x y) C"
  using assms unfolding and_keeps_def by blast

text \<open>
  C5.  Let \<open>b\<close> be a Full whose endpoints have the captains \<open>x0\<close> and \<open>x1\<close>, two cells not
  of the opponent, with the captains as the builder keeps them (a captain is its own
  captain, the neighbour sets hold captains).  Then \<open>AndClosure\<close> of \<open>b\<close> returns: it is
  the pass over \<open>x0\<close> followed by the pass over \<open>x1\<close>, each with the colour of the board
  on the cell it goes over.  In the pass over \<open>over\<close> (with \<open>to\<close> the other endpoint, and
  \<open>s0\<close> the state in which the pass starts), for every neighbour \<open>from\<close> of \<open>over\<close> that
  is no endpoint and not in the carrier of \<open>b\<close>, and every processed Full \<open>a\<close> in the soft
  prefix of the list between \<open>from\<close> and \<open>over\<close> with \<open>to\<close> outside its carrier and its
  carrier disjoint from that of \<open>b\<close>, the run goes through the add of the connection \<open>X\<close>:
  the walk of the neighbours reaches \<open>from\<close> in a state \<open>t1\<close>, the walk of the list reaches
  \<open>a\<close> in a state \<open>t2\<close>, and there \<open>X\<close> is handed to \<open>AddNewSemi\<close> or \<open>AddNewFull\<close>.  \<open>X\<close>
  is the Semi between \<open>from\<close> and \<open>to\<close> with key \<open>over\<close> and the two carriers and \<open>over\<close>
  as carrier when \<open>over\<close> is empty, and the Full with the union of the two carriers
  otherwise, when \<open>over\<close> is the builder's own.  When the closure has returned, the Full
  list between \<open>from\<close> and \<open>to\<close> (or, for an empty \<open>over\<close>, the Full or the Semi list) holds
  a connection whose carrier is inside that of \<open>X\<close>.
\<close>

theorem AndClosure_derives:
  fixes s :: "'c::{finite,linorder} builder" and e :: "'c env" and b :: "'c VC"
  defines "x0 \<equiv> CaptainOf (m_groups e) (VC_X b)"
  defines "x1 \<equiv> CaptainOf (m_groups e) (VC_Y b)"
  assumes "captains_ok e s"
    and "GetColor (m_groups e) x0 \<noteq> other_color (m_color e)"
    and "GetColor (m_groups e) x1 \<noteq> other_color (m_color e)"
    and "x0 \<noteq> x1"
  shows "\<exists>s1 s'.
       AndClosure_end e b x0 x1 (GetColor (m_groups e) x0) s = Inr s1
     \<and> AndClosure_end e b x1 x0 (GetColor (m_groups e) x1) s1 = Inr s'
     \<and> AndClosure e b s = Inr s'
     \<and> (\<forall>over to s0 s9 from a.
          (over = x0 \<and> to = x1 \<and> s0 = s \<and> s9 = s1 \<or> over = x1 \<and> to = x0 \<and> s0 = s1 \<and> s9 = s')
          \<and> (and_over_edge (m_param e) \<or> \<not> isEdge e over)
          \<and> from \<in> m_nbs s0 over \<and> from \<noteq> x0 \<and> from \<noteq> x1 \<and> from \<notin> VC_Carrier b
          \<and> a \<in> set (soft_entries (GetList (m_con s0) FULL from over))
          \<and> VC_Processed a \<and> to \<notin> VC_Carrier a \<and> VC_Carrier a \<inter> VC_Carrier b = {}
        \<longrightarrow> (\<exists>X zs1 zs2 pre post t1 t2 t3 t4.
              X = (if GetColor (m_groups e) over = EMPTY
                   then \<lparr>VC_X = min from to, VC_Y = max from to, VC_Key = Some over,
                         VC_Carrier = VC_Carrier a \<union> VC_Carrier b \<union> {over},
                         VC_Rule = VC_RULE_AND, VC_Processed = False\<rparr>
                   else \<lparr>VC_X = min from to, VC_Y = max from to, VC_Key = None,
                         VC_Carrier = VC_Carrier a \<union> VC_Carrier b,
                         VC_Rule = VC_RULE_AND, VC_Processed = False\<rparr>)
            \<and> sorted_list_of_set (m_nbs s0 over) = zs1 @ from # zs2
            \<and> soft_entries (GetList (m_con s0) FULL from over) = pre @ a # post
            \<and> AndClosure_nbrs e b over to (GetColor (m_groups e) over) zs1 s0 = Inr t1
            \<and> DoAnd_loop e from over to (AndRule_of (GetColor (m_groups e) over)) b
                 (m_capturedSet s0 over \<union> m_capturedSet s0 to \<union> m_capturedSet s0 from)
                 pre t1 = Inr t2
            \<and> DoAnd_add e X t2 = Inr t3
            \<and> DoAnd_loop e from over to (AndRule_of (GetColor (m_groups e) over)) b
                 (m_capturedSet s0 over \<union> m_capturedSet s0 to \<union> m_capturedSet s0 from)
                 post t3 = Inr t4
            \<and> AndClosure_nbr e b over to (GetColor (m_groups e) over) from t1 = Inr t4
            \<and> AndClosure_nbrs e b over to (GetColor (m_groups e) over) zs2 t4 = Inr s9
            \<and> (IsSupersetOfAny (GetList (m_con s') FULL from to) (VC_Carrier X)
               \<or> GetColor (m_groups e) over = EMPTY
                 \<and> IsSupersetOfAny (GetList (m_con s') SEMI from to) (VC_Carrier X))))"
proof -
  from AndClosure_end_run[OF assms(3), of b x0 x1 "GetColor (m_groups e) x0"] obtain s1 where
    r1: "AndClosure_end e b x0 x1 (GetColor (m_groups e) x0) s = Inr s1" and
    k1: "and_keeps e s s1" by blast
  from k1 assms(3) have ok1: "captains_ok e s1" by (simp add: and_keeps_def)
  from AndClosure_end_run[OF ok1, of b x1 x0 "GetColor (m_groups e) x1"] obtain s' where
    r2: "AndClosure_end e b x1 x0 (GetColor (m_groups e) x1) s1 = Inr s'" and
    k2: "and_keeps e s1 s'" by blast
  have run: "AndClosure e b s = Inr s'"
    using assms(4,5) r1 r2 by (simp add: AndClosure_def Let_def x0_def x1_def)
  have pass: "\<exists>X zs1 zs2 pre post t1 t2 t3 t4.
              X = (if GetColor (m_groups e) over = EMPTY
                   then \<lparr>VC_X = min fr tgt, VC_Y = max fr tgt, VC_Key = Some over,
                         VC_Carrier = VC_Carrier a \<union> VC_Carrier b \<union> {over},
                         VC_Rule = VC_RULE_AND, VC_Processed = False\<rparr>
                   else \<lparr>VC_X = min fr tgt, VC_Y = max fr tgt, VC_Key = None,
                         VC_Carrier = VC_Carrier a \<union> VC_Carrier b,
                         VC_Rule = VC_RULE_AND, VC_Processed = False\<rparr>)
            \<and> sorted_list_of_set (m_nbs s0 over) = zs1 @ fr # zs2
            \<and> soft_entries (GetList (m_con s0) FULL fr over) = pre @ a # post
            \<and> AndClosure_nbrs e b over tgt (GetColor (m_groups e) over) zs1 s0 = Inr t1
            \<and> DoAnd_loop e fr over tgt (AndRule_of (GetColor (m_groups e) over)) b
                 (m_capturedSet s0 over \<union> m_capturedSet s0 tgt \<union> m_capturedSet s0 fr)
                 pre t1 = Inr t2
            \<and> DoAnd_add e X t2 = Inr t3
            \<and> DoAnd_loop e fr over tgt (AndRule_of (GetColor (m_groups e) over)) b
                 (m_capturedSet s0 over \<union> m_capturedSet s0 tgt \<union> m_capturedSet s0 fr)
                 post t3 = Inr t4
            \<and> AndClosure_nbr e b over tgt (GetColor (m_groups e) over) fr t1 = Inr t4
            \<and> AndClosure_nbrs e b over tgt (GetColor (m_groups e) over) zs2 t4 = Inr s9
            \<and> (IsSupersetOfAny (GetList (m_con s') FULL fr tgt) (VC_Carrier X)
               \<or> GetColor (m_groups e) over = EMPTY
                 \<and> IsSupersetOfAny (GetList (m_con s') SEMI fr tgt) (VC_Carrier X))"
    if prun: "AndClosure_end e b over tgt (GetColor (m_groups e) over) s0 = Inr s9"
      and pok: "captains_ok e s0" and pk: "and_keeps e s9 s'" and pne: "over \<noteq> tgt"
      and edge: "and_over_edge (m_param e) \<or> \<not> isEdge e over"
      and nb: "fr \<in> m_nbs s0 over" "fr \<noteq> over" "fr \<noteq> tgt" "fr \<notin> VC_Carrier b"
      and a: "a \<in> set (soft_entries (GetList (m_con s0) FULL fr over))"
        "VC_Processed a" "tgt \<notin> VC_Carrier a" "VC_Carrier a \<inter> VC_Carrier b = {}"
    for over tgt s0 s9 fr a
  proof -
    define X where "X = (if GetColor (m_groups e) over = EMPTY
                   then \<lparr>VC_X = min fr tgt, VC_Y = max fr tgt, VC_Key = Some over,
                         VC_Carrier = VC_Carrier a \<union> VC_Carrier b \<union> {over},
                         VC_Rule = VC_RULE_AND, VC_Processed = False\<rparr>
                   else \<lparr>VC_X = min fr tgt, VC_Y = max fr tgt, VC_Key = None,
                         VC_Carrier = VC_Carrier a \<union> VC_Carrier b,
                         VC_Rule = VC_RULE_AND, VC_Processed = False\<rparr>)"
    from and_pass_derives[OF prun pok pne edge nb a, folded X_def]
    obtain zs1 zs2 pre post t1 t2 t3 t4 where
      d: "sorted_list_of_set (m_nbs s0 over) = zs1 @ fr # zs2"
         "soft_entries (GetList (m_con s0) FULL fr over) = pre @ a # post"
         "AndClosure_nbrs e b over tgt (GetColor (m_groups e) over) zs1 s0 = Inr t1"
         "DoAnd_loop e fr over tgt (AndRule_of (GetColor (m_groups e) over)) b
            (m_capturedSet s0 over \<union> m_capturedSet s0 tgt \<union> m_capturedSet s0 fr) pre t1 = Inr t2"
         "DoAnd_add e X t2 = Inr t3"
         "DoAnd_loop e fr over tgt (AndRule_of (GetColor (m_groups e) over)) b
            (m_capturedSet s0 over \<union> m_capturedSet s0 tgt \<union> m_capturedSet s0 fr) post t3 = Inr t4"
         "AndClosure_nbr e b over tgt (GetColor (m_groups e) over) fr t1 = Inr t4"
         "AndClosure_nbrs e b over tgt (GetColor (m_groups e) over) zs2 t4 = Inr s9" and
      k: "and_keeps e t3 s9" and
      dom: "IsSupersetOfAny (GetList (m_con t3) FULL fr tgt) (VC_Carrier X)
            \<or> GetColor (m_groups e) over = EMPTY
              \<and> IsSupersetOfAny (GetList (m_con t3) SEMI fr tgt) (VC_Carrier X)"
      by (elim exE conjE) (rule that, assumption+)
    from and_keeps_dom[OF and_keeps_trans[OF k pk] dom]
    have dom': "IsSupersetOfAny (GetList (m_con s') FULL fr tgt) (VC_Carrier X)
            \<or> GetColor (m_groups e) over = EMPTY
              \<and> IsSupersetOfAny (GetList (m_con s') SEMI fr tgt) (VC_Carrier X)" .
    show ?thesis
      apply (rule exI[of _ X], rule exI[of _ zs1], rule exI[of _ zs2], rule exI[of _ pre])
      apply (rule exI[of _ post], rule exI[of _ t1], rule exI[of _ t2], rule exI[of _ t3])
      apply (rule exI[of _ t4])
      using d dom' by (simp add: X_def)
  qed
  show ?thesis
  proof (rule exI[of _ s1], rule exI[of _ s'], intro conjI allI impI)
    show "AndClosure_end e b x0 x1 (GetColor (m_groups e) x0) s = Inr s1" by (rule r1)
    show "AndClosure_end e b x1 x0 (GetColor (m_groups e) x1) s1 = Inr s'" by (rule r2)
    show "AndClosure e b s = Inr s'" by (rule run)
  next
    fix over tgt s0 s9 fr a
    assume H: "(over = x0 \<and> tgt = x1 \<and> s0 = s \<and> s9 = s1 \<or> over = x1 \<and> tgt = x0 \<and> s0 = s1 \<and> s9 = s')
          \<and> (and_over_edge (m_param e) \<or> \<not> isEdge e over)
          \<and> fr \<in> m_nbs s0 over \<and> fr \<noteq> x0 \<and> fr \<noteq> x1 \<and> fr \<notin> VC_Carrier b
          \<and> a \<in> set (soft_entries (GetList (m_con s0) FULL fr over))
          \<and> VC_Processed a \<and> tgt \<notin> VC_Carrier a \<and> VC_Carrier a \<inter> VC_Carrier b = {}"
    then have edge: "and_over_edge (m_param e) \<or> \<not> isEdge e over"
      and nb: "fr \<in> m_nbs s0 over" "fr \<noteq> x0" "fr \<noteq> x1" "fr \<notin> VC_Carrier b"
      and a: "a \<in> set (soft_entries (GetList (m_con s0) FULL fr over))"
        "VC_Processed a" "tgt \<notin> VC_Carrier a" "VC_Carrier a \<inter> VC_Carrier b = {}"
      by simp_all
    from H consider (first) "over = x0" "tgt = x1" "s0 = s" "s9 = s1"
      | (second) "over = x1" "tgt = x0" "s0 = s1" "s9 = s'" by blast
    then show "\<exists>X zs1 zs2 pre post t1 t2 t3 t4.
              X = (if GetColor (m_groups e) over = EMPTY
                   then \<lparr>VC_X = min fr tgt, VC_Y = max fr tgt, VC_Key = Some over,
                         VC_Carrier = VC_Carrier a \<union> VC_Carrier b \<union> {over},
                         VC_Rule = VC_RULE_AND, VC_Processed = False\<rparr>
                   else \<lparr>VC_X = min fr tgt, VC_Y = max fr tgt, VC_Key = None,
                         VC_Carrier = VC_Carrier a \<union> VC_Carrier b,
                         VC_Rule = VC_RULE_AND, VC_Processed = False\<rparr>)
            \<and> sorted_list_of_set (m_nbs s0 over) = zs1 @ fr # zs2
            \<and> soft_entries (GetList (m_con s0) FULL fr over) = pre @ a # post
            \<and> AndClosure_nbrs e b over tgt (GetColor (m_groups e) over) zs1 s0 = Inr t1
            \<and> DoAnd_loop e fr over tgt (AndRule_of (GetColor (m_groups e) over)) b
                 (m_capturedSet s0 over \<union> m_capturedSet s0 tgt \<union> m_capturedSet s0 fr)
                 pre t1 = Inr t2
            \<and> DoAnd_add e X t2 = Inr t3
            \<and> DoAnd_loop e fr over tgt (AndRule_of (GetColor (m_groups e) over)) b
                 (m_capturedSet s0 over \<union> m_capturedSet s0 tgt \<union> m_capturedSet s0 fr)
                 post t3 = Inr t4
            \<and> AndClosure_nbr e b over tgt (GetColor (m_groups e) over) fr t1 = Inr t4
            \<and> AndClosure_nbrs e b over tgt (GetColor (m_groups e) over) zs2 t4 = Inr s9
            \<and> (IsSupersetOfAny (GetList (m_con s') FULL fr tgt) (VC_Carrier X)
               \<or> GetColor (m_groups e) over = EMPTY
                 \<and> IsSupersetOfAny (GetList (m_con s') SEMI fr tgt) (VC_Carrier X))"
    proof cases
      case first
      show ?thesis
        by (rule pass) (use first r1 assms(3,6) k2 edge nb a in simp_all)
    next
      case second
      show ?thesis
        by (rule pass) (use second r2 ok1 assms(6) edge nb a in \<open>simp_all add: and_keeps_refl\<close>)
    qed
  qed
qed

theorem AndClosure_derives_witness:
  "captains_ok ex_env ex_and
   \<and> GetColor (m_groups ex_env) 2 = EMPTY
   \<and> ex_a0 \<in> set (soft_entries (GetList (m_con ex_and) FULL 4 2))
   \<and> (\<exists>s'. AndClosure ex_env ex_b0 ex_and = Inr s'
          \<and> (IsSupersetOfAny (GetList (m_con s') FULL 4 3) {2, 5, 7}
             \<or> IsSupersetOfAny (GetList (m_con s') SEMI 4 3) {2, 5, 7}))"
proof -
  have cx: "CaptainOf (m_groups ex_env) (VC_X ex_b0) = 2"
           "CaptainOf (m_groups ex_env) (VC_Y ex_b0) = 3"
    by (simp_all add: ex_env_def ex_groups_def ex_b0_def VC_full_def)
  have col: "GetColor (m_groups ex_env) 2 = EMPTY" "GetColor (m_groups ex_env) 3 = EMPTY"
    by (simp_all add: ex_env_def ex_groups_def)
  have h1: "captains_ok ex_env ex_and"
    by (simp add: captains_ok_def ex_env_def ex_groups_def)
  have h2: "EMPTY \<noteq> other_color (m_color ex_env)"
    by (simp add: ex_env_def)
  have h4: "(2::8 word) \<noteq> 3" by simp
  have mem: "ex_a0 \<in> set (soft_entries (GetList (m_con ex_and) FULL 4 2))"
    by (simp add: ex_and_def soft_entries_def GetList_SetList)
  have pre: "(2 = (2::8 word) \<and> 3 = (3::8 word) \<and> ex_and = ex_and \<and> s1 = s1
              \<or> 2 = (3::8 word) \<and> 3 = (2::8 word) \<and> ex_and = s1 \<and> s1 = s')
          \<and> (and_over_edge (m_param ex_env) \<or> \<not> isEdge ex_env 2)
          \<and> 4 \<in> m_nbs ex_and 2 \<and> (4::8 word) \<noteq> 2 \<and> (4::8 word) \<noteq> 3 \<and> 4 \<notin> VC_Carrier ex_b0
          \<and> ex_a0 \<in> set (soft_entries (GetList (m_con ex_and) FULL 4 2))
          \<and> VC_Processed ex_a0 \<and> 3 \<notin> VC_Carrier ex_a0
          \<and> VC_Carrier ex_a0 \<inter> VC_Carrier ex_b0 = {}" for s1 s' :: "8 word builder"
    using mem by (simp add: ex_env_def ex_and_def ex_a0_def ex_b0_def VC_full_def)
  have car: "VC_Carrier ex_a0 \<union> VC_Carrier ex_b0 \<union> {2} = {2, 5, 7}"
    by (auto simp: ex_a0_def ex_b0_def VC_full_def)
  note T = AndClosure_derives[of ex_env ex_and ex_b0, unfolded cx col, OF h1 h2 h2 h4]
  from T obtain s1 s' where
    r1: "AndClosure_end ex_env ex_b0 2 3 EMPTY ex_and = Inr s1" and
    r2: "AndClosure_end ex_env ex_b0 3 2 EMPTY s1 = Inr s'" and
    run: "AndClosure ex_env ex_b0 ex_and = Inr s'" and
    each: "\<forall>over to s0 s9 from a.
          (over = 2 \<and> to = 3 \<and> s0 = ex_and \<and> s9 = s1 \<or> over = 3 \<and> to = 2 \<and> s0 = s1 \<and> s9 = s')
          \<and> (and_over_edge (m_param ex_env) \<or> \<not> isEdge ex_env over)
          \<and> from \<in> m_nbs s0 over \<and> from \<noteq> 2 \<and> from \<noteq> 3 \<and> from \<notin> VC_Carrier ex_b0
          \<and> a \<in> set (soft_entries (GetList (m_con s0) FULL from over))
          \<and> VC_Processed a \<and> to \<notin> VC_Carrier a \<and> VC_Carrier a \<inter> VC_Carrier ex_b0 = {}
        \<longrightarrow> (\<exists>X zs1 zs2 pre post t1 t2 t3 t4.
              X = (if GetColor (m_groups ex_env) over = EMPTY
                   then \<lparr>VC_X = min from to, VC_Y = max from to, VC_Key = Some over,
                         VC_Carrier = VC_Carrier a \<union> VC_Carrier ex_b0 \<union> {over},
                         VC_Rule = VC_RULE_AND, VC_Processed = False\<rparr>
                   else \<lparr>VC_X = min from to, VC_Y = max from to, VC_Key = None,
                         VC_Carrier = VC_Carrier a \<union> VC_Carrier ex_b0,
                         VC_Rule = VC_RULE_AND, VC_Processed = False\<rparr>)
            \<and> sorted_list_of_set (m_nbs s0 over) = zs1 @ from # zs2
            \<and> soft_entries (GetList (m_con s0) FULL from over) = pre @ a # post
            \<and> AndClosure_nbrs ex_env ex_b0 over to (GetColor (m_groups ex_env) over) zs1 s0 = Inr t1
            \<and> DoAnd_loop ex_env from over to (AndRule_of (GetColor (m_groups ex_env) over)) ex_b0
                 (m_capturedSet s0 over \<union> m_capturedSet s0 to \<union> m_capturedSet s0 from)
                 pre t1 = Inr t2
            \<and> DoAnd_add ex_env X t2 = Inr t3
            \<and> DoAnd_loop ex_env from over to (AndRule_of (GetColor (m_groups ex_env) over)) ex_b0
                 (m_capturedSet s0 over \<union> m_capturedSet s0 to \<union> m_capturedSet s0 from)
                 post t3 = Inr t4
            \<and> AndClosure_nbr ex_env ex_b0 over to (GetColor (m_groups ex_env) over) from t1 = Inr t4
            \<and> AndClosure_nbrs ex_env ex_b0 over to (GetColor (m_groups ex_env) over) zs2 t4 = Inr s9
            \<and> (IsSupersetOfAny (GetList (m_con s') FULL from to) (VC_Carrier X)
               \<or> GetColor (m_groups ex_env) over = EMPTY
                 \<and> IsSupersetOfAny (GetList (m_con s') SEMI from to) (VC_Carrier X)))"
    by (elim exE conjE) (rule that, assumption+)
  from each[rule_format, OF pre[of s1 s']] obtain X where
    X: "X = (if GetColor (m_groups ex_env) 2 = EMPTY
                   then \<lparr>VC_X = min 4 3, VC_Y = max 4 3, VC_Key = Some 2,
                         VC_Carrier = VC_Carrier ex_a0 \<union> VC_Carrier ex_b0 \<union> {2},
                         VC_Rule = VC_RULE_AND, VC_Processed = False\<rparr>
                   else \<lparr>VC_X = min 4 3, VC_Y = max 4 3, VC_Key = None,
                         VC_Carrier = VC_Carrier ex_a0 \<union> VC_Carrier ex_b0,
                         VC_Rule = VC_RULE_AND, VC_Processed = False\<rparr>)" and
    dom: "IsSupersetOfAny (GetList (m_con s') FULL 4 3) (VC_Carrier X)
               \<or> GetColor (m_groups ex_env) 2 = EMPTY
                 \<and> IsSupersetOfAny (GetList (m_con s') SEMI 4 3) (VC_Carrier X)"
    by (elim exE conjE) (rule that, assumption+)
  from X col(1) car have "VC_Carrier X = {2, 5, 7}" by simp
  with dom have "IsSupersetOfAny (GetList (m_con s') FULL 4 3) {2, 5, 7}
             \<or> IsSupersetOfAny (GetList (m_con s') SEMI 4 3) {2, 5, 7}" by auto
  with h1 col(1) mem run show ?thesis by (intro conjI exI[of _ s']) 
qed

end
